theory Spec2Isabelle
  imports Main "HOL-Library.Word" "HOL-Library.Signed_Division" "HOL-Library.Monad_Syntax"
begin

unbundle bit_operations_syntax

section \<open>The explicit free-list allocator of malloclab/handout/mm.c\<close>

subsection \<open>Machine model\<close>

text \<open>
  Pointers (\<^verbatim>\<open>char *\<close>, \<^verbatim>\<open>void *\<close>) are byte addresses, modelled as natural numbers:
  C pointer arithmetic has no wrap-around of its own. Integers keep their widths:
  \<^verbatim>\<open>size_t\<close> is a 64 bit word, \<^verbatim>\<open>unsigned int\<close> and \<^verbatim>\<open>int\<close> are 32 bit words
  (an \<^verbatim>\<open>int\<close> is read with \<open>sint\<close>), so that every conversion between them that the
  source performs is a \<open>ucast\<close> (truncation or zero extension) or an \<open>scast\<close> (sign
  extension) of the model. The memory is a map from the address of a four byte
  word to its contents: the allocator reads and writes memory only through
  \<^verbatim>\<open>GET_W\<close> and \<^verbatim>\<open>PUT_W\<close>, at addresses that differ from the start of the arena by a
  multiple of four.
\<close>

type_synonym addr = nat
type_synonym size_t = "64 word"
type_synonym uint = "32 word"
type_synonym memory = "addr \<Rightarrow> uint"

abbreviation (input) NULL :: addr where "NULL \<equiv> 0"

text \<open>The value of \<^verbatim>\<open>(char *) -1\<close>, which the arena-growth primitive returns on failure.\<close>

definition MINUS_ONE :: addr where
  "MINUS_ONE = 2 ^ 64 - 1"

text \<open>
  The global variables of mm.c (\<^verbatim>\<open>heap_listp\<close>, \<^verbatim>\<open>free_list_tail\<close>) together with the
  memory and the two variables of the memory system (\<^verbatim>\<open>mem_brk\<close>, \<^verbatim>\<open>mem_max_addr\<close>).
\<close>

record mm_state =
  mem :: memory
  mem_brk :: addr
  mem_max_addr :: addr
  heap_listp :: addr
  free_list_tail :: addr

text \<open>
  Modelled from the spec: the arena-growth primitive \<^verbatim>\<open>mem_sbrk\<close> of memlib.c, which is
  not part of the sources. It extends the managed region by \<open>incr\<close> bytes and returns the
  old end address, or the sentinel \<^verbatim>\<open>(void *) -1\<close> on exhaustion, leaving the region as
  it was.
\<close>

definition mem_sbrk :: "mm_state \<Rightarrow> size_t \<Rightarrow> mm_state \<times> addr" where
  "mem_sbrk s incr =
     (if mem_brk s + unat incr > mem_max_addr s then (s, MINUS_ONE)
      else (s\<lparr>mem_brk := mem_brk s + unat incr\<rparr>, mem_brk s))"

subsection \<open>Macros\<close>

abbreviation (input) ALIGNMENT :: "'a::numeral" where "ALIGNMENT \<equiv> 8"
abbreviation (input) WSIZE :: "'a::numeral" where "WSIZE \<equiv> 4"
abbreviation (input) DSIZE :: "'a::numeral" where "DSIZE \<equiv> 8"
abbreviation (input) CHUNKSIZE :: "'a::numeral" where "CHUNKSIZE \<equiv> 4096"
abbreviation (input) MINIMUM_BLK_SIZE :: "'a::numeral" where "MINIMUM_BLK_SIZE \<equiv> 16"

definition PACK :: "size_t \<Rightarrow> size_t \<Rightarrow> size_t" where
  "PACK sz alloc = sz OR alloc"

definition ALIGN :: "size_t \<Rightarrow> size_t" where
  "ALIGN sz = (sz + (ALIGNMENT - 1)) AND NOT 7"

definition GET_W :: "memory \<Rightarrow> addr \<Rightarrow> uint" where
  "GET_W m p = m p"

definition PUT_W :: "memory \<Rightarrow> addr \<Rightarrow> size_t \<Rightarrow> memory" where
  "PUT_W m p val = m(p := ucast val)"

definition GET_SIZE :: "memory \<Rightarrow> addr \<Rightarrow> uint" where
  "GET_SIZE m p = GET_W m p AND NOT 7"

definition GET_ISALLOCATED :: "memory \<Rightarrow> addr \<Rightarrow> uint" where
  "GET_ISALLOCATED m p = GET_W m p AND 1"

text \<open>
  The header of a block is the word before its payload. The subtraction is the one of the
  natural numbers: \<open>HDRP\<close> stands for the macro at block pointers of at least 4, which have
  a header word. At a smaller pointer, such as \<^verbatim>\<open>NULL\<close>, the C code reads below address 0
  and faults; no result below applies \<open>HDRP\<close> there.
\<close>

definition HDRP :: "addr \<Rightarrow> addr" where
  "HDRP bp = bp - WSIZE"

definition FTRP :: "memory \<Rightarrow> addr \<Rightarrow> addr" where
  "FTRP m bp = bp + unat (GET_SIZE m (HDRP bp)) - DSIZE"

definition NEXT_BLKP :: "memory \<Rightarrow> addr \<Rightarrow> addr" where
  "NEXT_BLKP m bp = bp + unat (GET_SIZE m (bp - WSIZE))"

definition PREV_BLKP :: "memory \<Rightarrow> addr \<Rightarrow> addr" where
  "PREV_BLKP m bp = bp - unat (GET_SIZE m (bp - DSIZE))"

text \<open>
  The link fields of a free block are two \<^verbatim>\<open>unsigned int\<close> at the start of its payload.
  \<^verbatim>\<open>SET_PREV_PTR\<close> and \<^verbatim>\<open>SET_NEXT_PTR\<close> cast the address to \<^verbatim>\<open>unsigned int\<close>; reading a
  link back as a pointer is \<open>unat\<close> of the stored word.
\<close>

definition GET_PREV_PTR :: "memory \<Rightarrow> addr \<Rightarrow> uint" where
  "GET_PREV_PTR m bp = m bp"

definition GET_NEXT_PTR :: "memory \<Rightarrow> addr \<Rightarrow> uint" where
  "GET_NEXT_PTR m bp = m (bp + 4)"

definition SET_PREV_PTR :: "memory \<Rightarrow> addr \<Rightarrow> addr \<Rightarrow> memory" where
  "SET_PREV_PTR m bp a = m(bp := of_nat a)"

definition SET_NEXT_PTR :: "memory \<Rightarrow> addr \<Rightarrow> addr \<Rightarrow> memory" where
  "SET_NEXT_PTR m bp a = m(bp + 4 := of_nat a)"

text \<open>Division of two \<^verbatim>\<open>int\<close>, which truncates towards zero.\<close>

definition int_div :: "uint \<Rightarrow> uint \<Rightarrow> uint" where
  "int_div a b = word_of_int (sint a sdiv sint b)"

subsection \<open>The free-list index\<close>

text \<open>
  The loop of \<^verbatim>\<open>insert_node\<close>. It follows the links stored in memory and need not
  terminate on a cyclic list: no result is \<open>None\<close>.
\<close>

partial_function (option) insert_node_loop ::
  "memory \<Rightarrow> size_t \<Rightarrow> addr \<Rightarrow> addr \<Rightarrow> (addr \<times> addr) option" where
  "insert_node_loop m blk_size prev next =
     (if prev \<noteq> NULL \<and> blk_size > ucast (GET_SIZE m (HDRP prev))
      then insert_node_loop m blk_size (unat (GET_PREV_PTR m prev)) prev
      else Some (prev, next))"

declare insert_node_loop.simps [code]

definition insert_node :: "mm_state \<Rightarrow> addr \<Rightarrow> size_t \<Rightarrow> mm_state option" where
  "insert_node s bp blk_size =
     do {
       (prev, next) \<leftarrow> insert_node_loop (mem s) blk_size (free_list_tail s) NULL;
       Some
        (if prev \<noteq> NULL then
           if next \<noteq> NULL then
             s\<lparr>mem := SET_PREV_PTR (SET_NEXT_PTR (SET_PREV_PTR (SET_NEXT_PTR (mem s)
                        bp next) bp prev) prev bp) next bp\<rparr>
           else
             s\<lparr>mem := SET_NEXT_PTR (SET_PREV_PTR (SET_NEXT_PTR (mem s) bp NULL) bp prev) prev bp,
               free_list_tail := bp\<rparr>
         else
           if next \<noteq> NULL then
             s\<lparr>mem := SET_PREV_PTR (SET_NEXT_PTR (SET_PREV_PTR (mem s) bp NULL) bp next) next bp\<rparr>
           else
             s\<lparr>mem := SET_PREV_PTR (SET_NEXT_PTR (mem s) bp NULL) bp NULL,
               free_list_tail := bp\<rparr>)
     }"

definition remove_node :: "mm_state \<Rightarrow> addr \<Rightarrow> mm_state" where
  "remove_node s bp =
     (let m = mem s in
      if GET_PREV_PTR m bp \<noteq> 0 then
        if GET_NEXT_PTR m bp \<noteq> 0 then
          let m1 = SET_NEXT_PTR m (unat (GET_PREV_PTR m bp)) (unat (GET_NEXT_PTR m bp));
              m2 = SET_PREV_PTR m1 (unat (GET_NEXT_PTR m1 bp)) (unat (GET_PREV_PTR m1 bp))
          in s\<lparr>mem := m2\<rparr>
        else
          let m1 = SET_NEXT_PTR m (unat (GET_PREV_PTR m bp)) NULL
          in s\<lparr>mem := m1, free_list_tail := unat (GET_PREV_PTR m1 bp)\<rparr>
      else
        if GET_NEXT_PTR m bp \<noteq> 0 then
          s\<lparr>mem := SET_PREV_PTR m (unat (GET_NEXT_PTR m bp)) NULL\<rparr>
        else
          s\<lparr>free_list_tail := NULL\<rparr>)"

subsection \<open>Coalescing, growing, splitting\<close>

definition coalesce :: "mm_state \<Rightarrow> addr \<Rightarrow> (mm_state \<times> addr) option" where
  "coalesce s bp =
     (let m = mem s;
          next_blkp = NEXT_BLKP m bp;
          prev_blkp = PREV_BLKP m bp;
          sz = (ucast (GET_SIZE m (HDRP bp)) :: size_t);
          is_next_allocated = GET_ISALLOCATED m (HDRP next_blkp);
          is_prev_allocated = GET_ISALLOCATED m (HDRP prev_blkp);
          (s1, size1) =
            (if is_next_allocated = 0 then
               let size_after_coalesce = sz + ucast (GET_SIZE m (HDRP next_blkp));
                   sr = remove_node s next_blkp;
                   m1 = PUT_W (mem sr) (HDRP bp) (PACK size_after_coalesce 0);
                   m2 = PUT_W m1 (FTRP m1 bp) (PACK size_after_coalesce 0)
               in (sr\<lparr>mem := m2\<rparr>, size_after_coalesce)
             else (s, sz));
          (s2, bp2) =
            (if is_prev_allocated = 0 then
               let size_after_coalesce = size1 + ucast (GET_SIZE (mem s1) (HDRP prev_blkp));
                   sr = remove_node s1 prev_blkp;
                   m1 = PUT_W (mem sr) (HDRP prev_blkp) (PACK size_after_coalesce 0);
                   m2 = PUT_W m1 (FTRP m1 bp) (PACK size_after_coalesce 0)
               in (sr\<lparr>mem := m2\<rparr>, prev_blkp)
             else (s1, bp))
      in do {
        s3 \<leftarrow> insert_node s2 bp2 (ucast (GET_SIZE (mem s2) (HDRP bp2)));
        Some (s3, bp2)
      })"

definition extend_heap :: "mm_state \<Rightarrow> size_t \<Rightarrow> (mm_state \<times> addr) option" where
  "extend_heap s words =
     (let aligned_words = (ucast (if words mod 2 = 0 then words else words + 1) :: uint);
          extend_size = (scast (aligned_words * WSIZE) :: size_t);
          (s1, bp) = mem_sbrk s extend_size
      in if bp = MINUS_ONE then Some (s1, NULL)
         else
           let m1 = PUT_W (mem s1) (HDRP bp) (PACK extend_size 0);
               m2 = PUT_W m1 (FTRP m1 bp) (PACK extend_size 0);
               m3 = PUT_W m2 (FTRP m2 bp + WSIZE) (PACK 0 1)
           in coalesce (s1\<lparr>mem := m3\<rparr>) bp)"

definition allocate :: "mm_state \<Rightarrow> addr \<Rightarrow> size_t \<Rightarrow> (mm_state \<times> addr) option" where
  "allocate s bp blk_size =
     (let s1 = remove_node s bp;
          curr_blk_size = (ucast (GET_SIZE (mem s1) (HDRP bp)) :: size_t)
      in if curr_blk_size - blk_size \<ge> MINIMUM_BLK_SIZE then
           let m1 = PUT_W (mem s1) (HDRP bp) (PACK blk_size 1);
               m2 = PUT_W m1 (FTRP m1 bp) (PACK blk_size 1);
               next_blkp = NEXT_BLKP m2 bp;
               m3 = PUT_W m2 (HDRP next_blkp) (PACK (curr_blk_size - blk_size) 0);
               m4 = PUT_W m3 (FTRP m3 next_blkp) (PACK (curr_blk_size - blk_size) 0)
           in do {
             s2 \<leftarrow> insert_node (s1\<lparr>mem := m4\<rparr>) next_blkp (curr_blk_size - blk_size);
             Some (s2, bp)
           }
         else
           let m1 = PUT_W (mem s1) (HDRP bp) (PACK curr_blk_size 1);
               m2 = PUT_W m1 (FTRP m1 bp) (PACK curr_blk_size 1)
           in Some (s1\<lparr>mem := m2\<rparr>, bp))"

text \<open>The search loop of \<^verbatim>\<open>find_fitting_blk\<close>, with the same caveat as the one above.\<close>

partial_function (option) find_fitting_blk_loop ::
  "memory \<Rightarrow> size_t \<Rightarrow> addr \<Rightarrow> addr option" where
  "find_fitting_blk_loop m blk_size bp =
     (if bp \<noteq> NULL \<and> blk_size > ucast (GET_SIZE m (HDRP bp))
      then find_fitting_blk_loop m blk_size (unat (GET_PREV_PTR m bp))
      else Some bp)"

declare find_fitting_blk_loop.simps [code]

definition find_fitting_blk :: "mm_state \<Rightarrow> size_t \<Rightarrow> (mm_state \<times> addr) option" where
  "find_fitting_blk s blk_size =
     do {
       bp \<leftarrow> find_fitting_blk_loop (mem s) blk_size (free_list_tail s);
       if bp = NULL then
         let extend_size = (ucast (if blk_size > CHUNKSIZE then blk_size else CHUNKSIZE) :: uint)
         in extend_heap s (scast (int_div extend_size WSIZE))
       else Some (s, bp)
     }"

subsection \<open>The interface: init, malloc, free, realloc\<close>

text \<open>\<^verbatim>\<open>mm_init\<close> returns an \<^verbatim>\<open>int\<close>: 0, or -1 when the arena cannot be set up.\<close>

definition mm_init :: "mm_state \<Rightarrow> (mm_state \<times> uint) option" where
  "mm_init s =
     (let (s1, p) = mem_sbrk s (4 * WSIZE);
          s2 = s1\<lparr>heap_listp := p\<rparr>
      in if p = MINUS_ONE then Some (s2, - 1)
         else
           let m1 = PUT_W (mem s2) (heap_listp s2) 0;
               m2 = PUT_W m1 (heap_listp s2 + WSIZE) (PACK DSIZE 1);
               m3 = PUT_W m2 (heap_listp s2 + 2 * WSIZE) (PACK DSIZE 1);
               m4 = PUT_W m3 (heap_listp s2 + 3 * WSIZE) (PACK 0 1);
               s3 = s2\<lparr>mem := m4, heap_listp := heap_listp s2 + DSIZE, free_list_tail := NULL\<rparr>
           in do {
             (s4, bp) \<leftarrow> extend_heap s3 (scast (int_div CHUNKSIZE WSIZE));
             if bp = NULL then Some (s4, - 1) else Some (s4, 0)
           })"

text \<open>
  The \<^verbatim>\<open>int adjusted_size\<close> of \<^verbatim>\<open>mm_malloc\<close>: the \<^verbatim>\<open>size_t\<close> value of
  \<^verbatim>\<open>ALIGN(size + DSIZE)\<close>, converted to \<^verbatim>\<open>int\<close>.
\<close>

definition adjusted_size :: "size_t \<Rightarrow> uint" where
  "adjusted_size sz = ucast (ALIGN (sz + DSIZE))"

definition mm_malloc :: "mm_state \<Rightarrow> size_t \<Rightarrow> (mm_state \<times> addr) option" where
  "mm_malloc s sz =
     (if sz = 0 then Some (s, NULL)
      else
        do {
          (s1, bp) \<leftarrow> find_fitting_blk s (scast (adjusted_size sz));
          if bp = NULL then Some (s1, NULL)
          else allocate s1 bp (scast (adjusted_size sz))
        })"

definition mm_free :: "mm_state \<Rightarrow> addr \<Rightarrow> mm_state option" where
  "mm_free s ptr =
     (let hdrp = HDRP ptr;
          ftrp = FTRP (mem s) ptr;
          curr_block_size = (ucast (GET_SIZE (mem s) hdrp) :: size_t);
          m1 = PUT_W (mem s) hdrp (PACK curr_block_size 0);
          m2 = PUT_W m1 ftrp (PACK curr_block_size 0)
      in do {
        (s1, bp) \<leftarrow> coalesce (s\<lparr>mem := m2\<rparr>) ptr;
        Some s1
      })"

text \<open>
  \<^verbatim>\<open>memcpy\<close> on the word memory, for source and destination at word addresses: the
  whole words below \<open>n\<close> bytes are copied, and of a last partial word the \<open>n mod 4\<close> low
  bytes (the bytes at the lower addresses of a little-endian machine). The source is read
  as it was before the call, which is \<^verbatim>\<open>memcpy\<close> for regions that do not overlap, and the
  memory is total: the model does not stop a copy at the end of the arena, where the C
  code may fault.
\<close>

definition merge_low :: "nat \<Rightarrow> uint \<Rightarrow> uint \<Rightarrow> uint" where
  "merge_low k new old = (new AND mask (8 * k)) OR (old AND NOT (mask (8 * k)))"

definition memcpy :: "memory \<Rightarrow> addr \<Rightarrow> addr \<Rightarrow> nat \<Rightarrow> memory" where
  "memcpy m dst src n =
     (\<lambda>a. if dst \<le> a \<and> a < dst + n \<and> 4 dvd (a - dst) then
            if a - dst + 4 \<le> n then m (src + (a - dst))
            else merge_low (n - (a - dst)) (m (src + (a - dst))) (m a)
          else m a)"

text \<open>
  Two executions of \<^verbatim>\<open>mm_realloc\<close> have no defined result: \<^verbatim>\<open>memcpy\<close> to the null
  pointer that a failed \<^verbatim>\<open>mm_malloc\<close> returned, and the read of \<^verbatim>\<open>extend_size\<close> before
  any assignment to it.
\<close>

datatype fault = Null_Dereference | Uninitialised_Read

definition mm_realloc :: "mm_state \<Rightarrow> addr \<Rightarrow> size_t \<Rightarrow> (fault + mm_state \<times> addr) option" where
  "mm_realloc s ptr sz =
     (if sz = 0 then Some (Inr (s, NULL))
      else
        let m = mem s;
            new_blk_size = (if sz \<le> DSIZE then 2 * DSIZE else ALIGN (sz + DSIZE))
        in if ucast (GET_SIZE m (HDRP ptr)) < new_blk_size then
             let remaining_size =
                   (ucast (ucast (GET_SIZE m (HDRP ptr) + GET_SIZE m (HDRP (NEXT_BLKP m ptr)))
                           - new_blk_size) :: uint)
             in if GET_ISALLOCATED m (HDRP (NEXT_BLKP m ptr)) = 0 then
                  if 0 \<le>s remaining_size then
                    let s1 = remove_node s (NEXT_BLKP m ptr);
                        m1 = PUT_W (mem s1) (HDRP ptr) (PACK (new_blk_size + scast remaining_size) 1);
                        m2 = PUT_W m1 (FTRP m1 ptr) (PACK (new_blk_size + scast remaining_size) 1)
                    in Some (Inr (s1\<lparr>mem := m2\<rparr>, ptr))
                  else Some (Inr (s, ptr))
                else if GET_SIZE m (HDRP ptr) = 0 then
                  if remaining_size <s 0 then
                    let extend_size =
                          (scast (if CHUNKSIZE <s - remaining_size then - remaining_size
                                  else CHUNKSIZE :: uint) :: size_t)
                    in do {
                      (s1, bp) \<leftarrow> extend_heap s (extend_size div WSIZE);
                      if bp = NULL then Some (Inr (s1, NULL))
                      else
                        let remaining_size' = (ucast (scast remaining_size + extend_size) :: uint);
                            m1 = PUT_W (mem s1) (HDRP ptr) (PACK (new_blk_size + scast remaining_size') 1);
                            m2 = PUT_W m1 (FTRP m1 ptr) (PACK (new_blk_size + scast remaining_size') 1)
                        in Some (Inr (s1\<lparr>mem := m2\<rparr>, ptr))
                    }
                  else Some (Inl Uninitialised_Read)
                else
                  do {
                    (s1, newptr) \<leftarrow> mm_malloc s (new_blk_size - DSIZE);
                    if newptr = NULL then Some (Inl Null_Dereference)
                    else
                      let n = unat (if sz < new_blk_size then sz else new_blk_size);
                          s2 = s1\<lparr>mem := memcpy (mem s1) newptr ptr n\<rparr>
                      in do {
                        s3 \<leftarrow> mm_free s2 ptr;
                        Some (Inr (s3, newptr))
                      }
                  }
           else Some (Inr (s, ptr)))"

section \<open>Concrete scenarios\<close>

text \<open>
  A fresh arena of 20 MiB at address 65536 whose memory is all zero, and a small one that
  has room for the initial chunk only. The other states are the ones that the calls named
  in the lemmas below produce from them; memory words that are not listed are zero.
\<close>

definition arena0 :: mm_state where
  "arena0 =
     \<lparr>mem = (\<lambda>_. 0),
      mem_brk = 65536, mem_max_addr = 21037056, heap_listp = 0, free_list_tail = 0\<rparr>"

definition small_arena0 :: mm_state where
  "small_arena0 =
     \<lparr>mem = (\<lambda>_. 0),
      mem_brk = 65536, mem_max_addr = 69648, heap_listp = 0, free_list_tail = 0\<rparr>"

definition st_init :: mm_state where
  "st_init =
     \<lparr>mem = (\<lambda>_. 0)
        (65536 := 0, 65540 := 9, 65544 := 9, 65548 := 4096, 69640 := 4096, 69644 := 1,
         65556 := 0, 65552 := 0),
      mem_brk = 69648, mem_max_addr = 21037056, heap_listp = 65544, free_list_tail = 65552\<rparr>"

definition st_a :: mm_state where
  "st_a =
     \<lparr>mem = (\<lambda>_. 0)
        (65536 := 0, 65540 := 9, 65544 := 9, 69644 := 1, 65556 := 0, 65552 := 0, 65548 := 17,
         65560 := 17, 65564 := 4080, 69640 := 4080, 65572 := 0, 65568 := 0),
      mem_brk = 69648, mem_max_addr = 21037056, heap_listp = 65544, free_list_tail = 65568\<rparr>"

definition st_a_freed :: mm_state where
  "st_a_freed =
     \<lparr>mem = (\<lambda>_. 0)
        (65536 := 0, 65540 := 9, 65544 := 9, 69644 := 1, 65564 := 4080, 65572 := 0,
         65568 := 0, 65560 := 16, 65548 := 4096, 69640 := 4096, 65556 := 0, 65552 := 0),
      mem_brk = 69648, mem_max_addr = 21037056, heap_listp = 65544, free_list_tail = 65552\<rparr>"

definition st_a_huge :: mm_state where
  "st_a_huge =
     \<lparr>mem = (\<lambda>_. 0)
        (65536 := 0, 65540 := 9, 65544 := 9, 69644 := 1, 65556 := 0, 65552 := 0, 65548 := 17,
         65560 := 1, 65564 := 4080, 69640 := 4080, 65572 := 0, 65568 := 0),
      mem_brk = 69648, mem_max_addr = 21037056, heap_listp = 65544, free_list_tail = 65568\<rparr>"

definition st_ab :: mm_state where
  "st_ab =
     \<lparr>mem = (\<lambda>_. 0)
        (65536 := 0, 65540 := 9, 65544 := 9, 69644 := 1, 65556 := 0, 65552 := 0, 65548 := 17,
         65560 := 17, 65572 := 0, 65568 := 0, 65564 := 17, 65576 := 17, 65580 := 4064,
         69640 := 4064, 65588 := 0, 65584 := 0),
      mem_brk = 69648, mem_max_addr = 21037056, heap_listp = 65544, free_list_tail = 65584\<rparr>"

definition sc_a :: mm_state where
  "sc_a =
     \<lparr>mem = (\<lambda>_. 0)
        (65536 := 0, 65540 := 9, 65544 := 9, 69644 := 1, 65556 := 0, 65552 := 0, 65548 := 113,
         65656 := 113, 65660 := 3984, 69640 := 3984, 65668 := 0, 65664 := 0),
      mem_brk = 69648, mem_max_addr = 21037056, heap_listp = 65544, free_list_tail = 65664\<rparr>"

definition sc_ab :: mm_state where
  "sc_ab =
     \<lparr>mem = (\<lambda>_. 0)
        (65536 := 0, 65540 := 9, 65544 := 9, 69644 := 1, 65556 := 0, 65552 := 0, 65548 := 113,
         65656 := 113, 65668 := 0, 65664 := 0, 65660 := 65, 65720 := 65, 65724 := 3920,
         69640 := 3920, 65732 := 0, 65728 := 0),
      mem_brk = 69648, mem_max_addr = 21037056, heap_listp = 65544, free_list_tail = 65728\<rparr>"

definition sc_b :: mm_state where
  "sc_b =
     \<lparr>mem = (\<lambda>_. 0)
        (65536 := 0, 65540 := 9, 65544 := 9, 69644 := 1, 65668 := 0, 65664 := 0, 65660 := 65,
         65720 := 65, 65724 := 3920, 69640 := 3920, 65728 := 0, 65548 := 112, 65656 := 112,
         65556 := 0, 65552 := 65728, 65732 := 65552),
      mem_brk = 69648, mem_max_addr = 21037056, heap_listp = 65544, free_list_tail = 65552\<rparr>"

definition sc_cb :: mm_state where
  "sc_cb =
     \<lparr>mem = (\<lambda>_. 0)
        (65536 := 0, 65540 := 9, 65544 := 9, 69644 := 1, 65668 := 0, 65664 := 0, 65660 := 65,
         65720 := 65, 65724 := 3920, 69640 := 3920, 65728 := 0, 65556 := 0, 65552 := 65728,
         65732 := 0, 65548 := 113, 65656 := 113),
      mem_brk = 69648, mem_max_addr = 21037056, heap_listp = 65544, free_list_tail = 65728\<rparr>"

definition sm_init :: mm_state where
  "sm_init =
     \<lparr>mem = (\<lambda>_. 0)
        (65536 := 0, 65540 := 9, 65544 := 9, 65548 := 4096, 69640 := 4096, 69644 := 1,
         65556 := 0, 65552 := 0),
      mem_brk = 69648, mem_max_addr = 69648, heap_listp = 65544, free_list_tail = 65552\<rparr>"

definition sm_a :: mm_state where
  "sm_a =
     \<lparr>mem = (\<lambda>_. 0)
        (65536 := 0, 65540 := 9, 65544 := 9, 69644 := 1, 65556 := 0, 65552 := 0, 65548 := 17,
         65560 := 17, 65564 := 4080, 69640 := 4080, 65572 := 0, 65568 := 0),
      mem_brk = 69648, mem_max_addr = 69648, heap_listp = 65544, free_list_tail = 65568\<rparr>"

definition sm_full :: mm_state where
  "sm_full =
     \<lparr>mem = (\<lambda>_. 0)
        (65536 := 0, 65540 := 9, 65544 := 9, 69644 := 1, 65556 := 0, 65552 := 0, 65548 := 17,
         65560 := 17, 65572 := 0, 65568 := 0, 65564 := 4081, 69640 := 4081),
      mem_brk = 69648, mem_max_addr = 69648, heap_listp = 65544, free_list_tail = 0\<rparr>"

text \<open>
  A fresh arena of 20 MiB above the address \<open>2 ^ 32\<close>, at \<open>2 ^ 32 + 65536\<close>, and the states
  that \<^verbatim>\<open>mm_init\<close>, \<^verbatim>\<open>mm_malloc(8)\<close>, \<^verbatim>\<open>mm_malloc(8)\<close> and \<^verbatim>\<open>mm_free\<close> of the first
  block produce from it. \<open>hi_p\<close> is the state inside that \<^verbatim>\<open>mm_free\<close> in which \<^verbatim>\<open>coalesce\<close>
  calls \<^verbatim>\<open>insert_node\<close>: the boundary tags of the block are rewritten as free.
\<close>

definition hi0 :: mm_state where
  "hi0 =
     \<lparr>mem = (\<lambda>_. 0),
      mem_brk = 4295032832, mem_max_addr = 4316004352, heap_listp = 0, free_list_tail = 0\<rparr>"

definition hi_init :: mm_state where
  "hi_init =
     \<lparr>mem = (\<lambda>_. 0)
        (4295032832 := 0, 4295032836 := 9, 4295032840 := 9, 4295032844 := 4096,
         4295036936 := 4096, 4295036940 := 1, 4295032852 := 0, 4295032848 := 0),
      mem_brk = 4295036944, mem_max_addr = 4316004352, heap_listp = 4295032840,
      free_list_tail = 4295032848\<rparr>"

definition hi_a :: mm_state where
  "hi_a =
     \<lparr>mem = (\<lambda>_. 0)
        (4295032832 := 0, 4295032836 := 9, 4295032840 := 9, 4295036940 := 1, 4295032852 := 0,
         4295032848 := 0, 4295032844 := 17, 4295032856 := 17, 4295032860 := 4080,
         4295036936 := 4080, 4295032868 := 0, 4295032864 := 0),
      mem_brk = 4295036944, mem_max_addr = 4316004352, heap_listp = 4295032840,
      free_list_tail = 4295032864\<rparr>"

definition hi_ab :: mm_state where
  "hi_ab =
     \<lparr>mem = (\<lambda>_. 0)
        (4295032832 := 0, 4295032836 := 9, 4295032840 := 9, 4295036940 := 1, 4295032852 := 0,
         4295032848 := 0, 4295032844 := 17, 4295032856 := 17, 4295032868 := 0, 4295032864 := 0,
         4295032860 := 17, 4295032872 := 17, 4295032876 := 4064, 4295036936 := 4064,
         4295032884 := 0, 4295032880 := 0),
      mem_brk = 4295036944, mem_max_addr = 4316004352, heap_listp = 4295032840,
      free_list_tail = 4295032880\<rparr>"

definition hi_b :: mm_state where
  "hi_b =
     \<lparr>mem = (\<lambda>_. 0)
        (4295032832 := 0, 4295032836 := 9, 4295032840 := 9, 4295036940 := 1, 4295032868 := 0,
         4295032864 := 0, 4295032860 := 17, 4295032872 := 17, 4295032876 := 4064,
         4295036936 := 4064, 4295032880 := 0, 4295032844 := 16, 4295032856 := 16,
         4295032852 := 0, 4295032848 := 65584, 4295032884 := 65552),
      mem_brk = 4295036944, mem_max_addr = 4316004352, heap_listp = 4295032840,
      free_list_tail = 4295032848\<rparr>"


section \<open>The heap as a list of blocks\<close>

text \<open>
  A block is described by the address of its payload, its size in bytes (header and
  footer included) and its allocated flag. \<open>tag n al\<close> is the boundary tag of a block of
  \<open>n\<close> bytes. \<open>chain m a bs e\<close> holds when the blocks \<open>bs\<close> lie in memory one after the
  other, the first at \<open>a\<close> and the last ending at \<open>e\<close>, each with \<open>tag\<close> as header and as
  footer.
\<close>

type_synonym blk = "addr \<times> nat \<times> bool"

definition tag :: "nat \<Rightarrow> bool \<Rightarrow> uint" where
  "tag n al = of_nat n OR of_bool al"

fun chain :: "memory \<Rightarrow> addr \<Rightarrow> blk list \<Rightarrow> addr \<Rightarrow> bool" where
  "chain m a [] e = (a = e)"
| "chain m a ((p, n, al) # bs) e =
     (p = a \<and> 8 dvd n \<and> 8 \<le> n \<and> m (p - 4) = tag n al \<and> m (p + n - 8) = tag n al \<and>
      chain m (p + n) bs e)"

definition free_of :: "blk list \<Rightarrow> (addr \<times> nat) set" where
  "free_of bs = {(p, n). (p, n, False) \<in> set bs}"

definition alloc_of :: "blk list \<Rightarrow> (addr \<times> nat) set" where
  "alloc_of bs = {(p, n). (p, n, True) \<in> set bs}"

definition first_or :: "'a \<Rightarrow> 'a list \<Rightarrow> 'a" where
  "first_or d xs = (case xs of [] \<Rightarrow> d | x # _ \<Rightarrow> x)"

definition last_or :: "'a \<Rightarrow> 'a list \<Rightarrow> 'a" where
  "last_or d xs = (if xs = [] then d else last xs)"

text \<open>
  \<open>links m nx xs pv\<close> holds when the blocks at the addresses \<open>xs\<close> are doubly linked in
  this order: the forward link (\<^verbatim>\<open>GET_NEXT_PTR\<close>) of each is its predecessor in \<open>xs\<close>, \<open>nx\<close>
  for the first, and its backward link (\<^verbatim>\<open>GET_PREV_PTR\<close>) is its successor, \<open>pv\<close> for
  the last. The free list is such a list from the tail, with \<open>nx = pv = NULL\<close>.
\<close>

fun links :: "memory \<Rightarrow> addr \<Rightarrow> addr list \<Rightarrow> addr \<Rightarrow> bool" where
  "links m nx [] pv = True"
| "links m nx (x # xs) pv =
     (m (x + 4) = of_nat nx \<and> m x = of_nat (first_or pv xs) \<and> links m x xs pv)"

text \<open>
  The layout of the arena: the prologue block at \<^verbatim>\<open>heap_listp\<close>, then blocks of at least
  16 bytes up to \<^verbatim>\<open>mem_brk\<close>, where the header of the epilogue is the last word; the
  blocks lie below the address \<open>2 ^ 32\<close>, so that the address of each fits in a link field.
\<close>

definition arena :: "mm_state \<Rightarrow> blk list \<Rightarrow> bool" where
  "arena s bs \<longleftrightarrow>
     4 \<le> heap_listp s \<and> mem_brk s \<le> 2 ^ 32 \<and>
     bs \<noteq> [] \<and> hd bs = (heap_listp s, 8, True) \<and> (\<forall>(p, n, al) \<in> set (tl bs). 16 \<le> n) \<and>
     chain (mem s) (heap_listp s) bs (mem_brk s) \<and> mem s (mem_brk s - 4) = tag 0 True"

text \<open>
  The free-list index over the list \<open>fl\<close> of (address, size) of its blocks, from the tail:
  doubly linked, \<^verbatim>\<open>free_list_tail\<close> at its first block, sizes ascending.
\<close>

definition index :: "mm_state \<Rightarrow> (addr \<times> nat) list \<Rightarrow> bool" where
  "index s fl \<longleftrightarrow>
     links (mem s) 0 (map fst fl) 0 \<and> free_list_tail s = first_or 0 (map fst fl) \<and>
     sorted (map snd fl) \<and> distinct (map fst fl)"

text \<open>No two blocks that follow each other are both free.\<close>

definition no_adjacent_free :: "blk list \<Rightarrow> bool" where
  "no_adjacent_free bs = successively (\<lambda>x y. snd (snd x) \<or> snd (snd y)) bs"

text \<open>
  The invariant of the allocator between two calls, and the one that holds inside a call
  while the free block at \<open>p\<close> is not yet in the index and may have free neighbours.
\<close>

definition heap_inv :: "mm_state \<Rightarrow> blk list \<Rightarrow> (addr \<times> nat) list \<Rightarrow> bool" where
  "heap_inv s bs fl \<longleftrightarrow>
     arena s bs \<and> index s fl \<and> set fl = free_of bs \<and> no_adjacent_free bs"

definition pending :: "mm_state \<Rightarrow> blk list \<Rightarrow> (addr \<times> nat) list \<Rightarrow> addr \<Rightarrow> nat \<Rightarrow> bool" where
  "pending s bs fl p n \<longleftrightarrow>
     arena s bs \<and> index s fl \<and> set fl = free_of bs - {(p, n)} \<and>
     (\<exists>pre post. bs = pre @ (p, n, False) # post \<and> no_adjacent_free pre \<and> no_adjacent_free post)"

text \<open>
  \<open>walk nxt x ys\<close> holds when following the link \<open>nxt\<close> from \<open>x\<close> visits the blocks \<open>ys\<close>,
  in this order, and then reaches \<^verbatim>\<open>NULL\<close>. The two links of a block are read as the
  code reads them.
\<close>

fun walk :: "(addr \<Rightarrow> addr) \<Rightarrow> addr \<Rightarrow> addr list \<Rightarrow> bool" where
  "walk nxt x [] = (x = NULL)"
| "walk nxt x (y # ys) = (x = y \<and> y \<noteq> NULL \<and> walk nxt (nxt y) ys)"

definition prev_link :: "memory \<Rightarrow> addr \<Rightarrow> addr" where
  "prev_link m bp = unat (GET_PREV_PTR m bp)"

definition next_link :: "memory \<Rightarrow> addr \<Rightarrow> addr" where
  "next_link m bp = unat (GET_NEXT_PTR m bp)"

definition blk_size_at :: "memory \<Rightarrow> addr \<Rightarrow> nat" where
  "blk_size_at m bp = unat (GET_SIZE m (HDRP bp))"

text \<open>
  \<open>kept m m' A\<close>: the payload words of the blocks \<open>A\<close> (address and size) are the same in
  the memories \<open>m\<close> and \<open>m'\<close>.
\<close>

definition kept :: "memory \<Rightarrow> memory \<Rightarrow> (addr \<times> nat) set \<Rightarrow> bool" where
  "kept m m' A \<longleftrightarrow> (\<forall>(q, k) \<in> A. \<forall>a. q \<le> a \<and> a + 8 < q + k \<longrightarrow> m' a = m a)"

text \<open>
  The addresses of free-list nodes are not null, fit in a link field, and the two link
  words of one node do not overlap those of another.
\<close>

definition wf_nodes :: "addr list \<Rightarrow> bool" where
  "wf_nodes xs \<longleftrightarrow>
     (\<forall>x \<in> set xs. 0 < x \<and> x < 2 ^ 32) \<and>
     (\<forall>a \<in> set xs. \<forall>b \<in> set xs. a \<noteq> b \<longrightarrow> a + 8 \<le> b \<or> b + 8 \<le> a)"

subsection \<open>Sequences of calls\<close>

text \<open>
  A client calls \<^verbatim>\<open>mm_init\<close>, \<^verbatim>\<open>mm_malloc\<close> and \<^verbatim>\<open>mm_free\<close>. Next to the state of the
  allocator, a run keeps the pointers that the client holds: none before the first
  \<^verbatim>\<open>mm_init\<close> that returned 0, the empty list after it, and then the pointers that
  \<^verbatim>\<open>mm_malloc\<close> returned and \<^verbatim>\<open>mm_free\<close> has not yet received. A call is permitted when it
  is \<^verbatim>\<open>mm_init\<close>, or \<^verbatim>\<open>mm_malloc\<close> after a successful \<^verbatim>\<open>mm_init\<close> with a size whose
  adjusted size fits the \<^verbatim>\<open>int\<close> that holds it, or \<^verbatim>\<open>mm_free\<close> of a pointer that the
  client holds. A run that meets a call that is not permitted is \<open>Refused\<close>; one in which
  a call does not return is \<open>Diverged\<close>.
\<close>

datatype request = Init | Acquire size_t | Release addr

datatype outcome = Diverged | Refused | Reached mm_state "addr list option"

fun permitted :: "addr list option \<Rightarrow> request \<Rightarrow> bool" where
  "permitted held Init = True"
| "permitted None (Acquire sz) = False"
| "permitted (Some live) (Acquire sz) = (unat sz \<le> 2 ^ 31 - 16)"
| "permitted None (Release p) = False"
| "permitted (Some live) (Release p) = (p \<in> set live)"

fun step :: "mm_state \<Rightarrow> addr list option \<Rightarrow> request \<Rightarrow> (mm_state \<times> addr list option) option" where
  "step s held Init =
     map_option (\<lambda>(s', r). (s', if r = 0 then Some [] else None)) (mm_init s)"
| "step s held (Acquire sz) =
     map_option (\<lambda>(s', p). (s', if p = NULL then held else map_option (Cons p) held))
       (mm_malloc s sz)"
| "step s held (Release p) =
     map_option (\<lambda>s'. (s', map_option (remove1 p) held)) (mm_free s p)"

fun run :: "mm_state \<Rightarrow> addr list option \<Rightarrow> request list \<Rightarrow> outcome" where
  "run s held [] = Reached s held"
| "run s held (c # cs) =
     (if permitted held c then
        (case step s held c of
           None \<Rightarrow> Diverged
         | Some (s', held') \<Rightarrow> run s' held' cs)
      else Refused)"

text \<open>
  What is observed between two calls, for the blocks \<open>bs\<close> of the arena and the blocks
  \<open>ys\<close> that following the backward links from the tail visits: the header word of every
  block equals its footer word, no two blocks that follow each other are both free, and
  the blocks \<open>ys\<close> are exactly the blocks whose header marks them free.
\<close>

definition observation :: "mm_state \<Rightarrow> blk list \<Rightarrow> addr list \<Rightarrow> bool" where
  "observation s bs ys \<longleftrightarrow>
     arena s bs \<and>
     (\<forall>(p, n, al) \<in> set bs. GET_W (mem s) (HDRP p) = GET_W (mem s) (FTRP (mem s) p)) \<and>
     no_adjacent_free bs \<and>
     walk (prev_link (mem s)) (free_list_tail s) ys \<and>
     set ys = {p \<in> fst ` set bs. GET_ISALLOCATED (mem s) (HDRP p) = 0}"

section \<open>Evaluating the scenarios\<close>

lemmas mm_eval =
  mm_init_def mm_malloc_def mm_free_def mm_realloc_def mem_sbrk_def MINUS_ONE_def Let_def
  PUT_W_def PACK_def int_div_def extend_heap_def HDRP_def FTRP_def GET_SIZE_def GET_W_def
  coalesce_def NEXT_BLKP_def PREV_BLKP_def GET_ISALLOCATED_def insert_node_def
  insert_node_loop.simps SET_NEXT_PTR_def SET_PREV_PTR_def GET_PREV_PTR_def GET_NEXT_PTR_def
  remove_node_def allocate_def find_fitting_blk_def find_fitting_blk_loop.simps ALIGN_def
  adjusted_size_def signed_divide_int_def word_sle_eq word_sless_alt memcpy_def merge_low_def

lemma init_arena0: "mm_init arena0 = Some (st_init, 0)"
  by (simp add: arena0_def st_init_def mm_eval)

lemma malloc_st_init: "mm_malloc st_init 8 = Some (st_a, 65552)"
  by (simp add: st_init_def st_a_def mm_eval)

lemma free_st_a: "mm_free st_a 65552 = Some st_a_freed"
  by (simp add: st_a_def st_a_freed_def mm_eval)

lemma malloc_st_a_huge: "mm_malloc st_a (2 ^ 32 - 8) = Some (st_a_huge, 65568)"
  by (simp add: st_a_def st_a_huge_def mm_eval)

lemma malloc_st_a: "mm_malloc st_a 8 = Some (st_ab, 65568)"
  by (simp add: st_a_def st_ab_def mm_eval)

lemma malloc_sc_init: "mm_malloc st_init 100 = Some (sc_a, 65552)"
  by (simp add: st_init_def sc_a_def mm_eval)

lemma malloc_sc_a: "mm_malloc sc_a 50 = Some (sc_ab, 65664)"
  by (simp add: sc_a_def sc_ab_def mm_eval)

lemma free_sc_ab: "mm_free sc_ab 65552 = Some sc_b"
  by (simp add: sc_ab_def sc_b_def mm_eval)

lemma malloc_sc_b: "mm_malloc sc_b 90 = Some (sc_cb, 65552)"
  by (simp add: sc_b_def sc_cb_def mm_eval)

lemma init_small_arena0: "mm_init small_arena0 = Some (sm_init, 0)"
  by (simp add: small_arena0_def sm_init_def mm_eval)

lemma malloc_sm_init: "mm_malloc sm_init 8 = Some (sm_a, 65552)"
  by (simp add: sm_init_def sm_a_def mm_eval)

lemma malloc_sm_a: "mm_malloc sm_a 4072 = Some (sm_full, 65568)"
  by (simp add: sm_a_def sm_full_def mm_eval)

lemma init_hi0: "mm_init hi0 = Some (hi_init, 0)"
  by (simp add: hi0_def hi_init_def mm_eval)

lemma malloc_hi_init: "mm_malloc hi_init 8 = Some (hi_a, 4295032848)"
  by (simp add: hi_init_def hi_a_def mm_eval)

lemma malloc_hi_a: "mm_malloc hi_a 8 = Some (hi_ab, 4295032864)"
  by (simp add: hi_a_def hi_ab_def mm_eval)

lemma hi_link_words: "(4295032880 :: uint) = 65584" "(4295032848 :: uint) = 65552"
  by simp_all

lemma free_hi_ab: "mm_free hi_ab 4295032848 = Some hi_b"
  by (simp add: hi_ab_def hi_b_def mm_eval hi_link_words)


section \<open>Zero-size requests\<close>

text \<open>
  Claim C8. \<^verbatim>\<open>mm_malloc(0)\<close> is rejected: it returns the null pointer and the state of
  the allocator (memory, arena bounds, free-list tail) is the one before the call.
\<close>

theorem mm_malloc_zero_rejected: "mm_malloc s 0 = Some (s, NULL)"
  by (simp add: mm_malloc_def)

text \<open>
  Claim C2, as the code has it. \<^verbatim>\<open>mm_realloc(ptr, 0)\<close> returns the null pointer and
  leaves the whole state unchanged: the block is not released.
\<close>

theorem mm_realloc_zero_returns_null_unchanged: "mm_realloc s ptr 0 = Some (Inr (s, NULL))"
  by (simp add: mm_realloc_def)

text \<open>
  Claim C2 as stated fails. After \<^verbatim>\<open>mm_init\<close> and \<^verbatim>\<open>p = mm_malloc(8)\<close> (the state
  \<open>st_a\<close>, \<open>p = 65552\<close>), \<^verbatim>\<open>mm_realloc(p, 0)\<close> leaves the block allocated and out of
  the free list, where \<^verbatim>\<open>mm_free(p)\<close> marks it free and makes it the tail of the list.
\<close>

theorem mm_realloc_zero_is_not_free:
  "mm_realloc st_a 65552 0 = Some (Inr (st_a, NULL)) \<and>
   GET_ISALLOCATED (mem st_a) (HDRP 65552) = 1 \<and> free_list_tail st_a = 65568 \<and>
   mm_free st_a 65552 = Some st_a_freed \<and>
   GET_ISALLOCATED (mem st_a_freed) (HDRP 65552) = 0 \<and> free_list_tail st_a_freed = 65552"
  by (simp add: free_st_a mm_realloc_def)
    (simp add: st_a_def st_a_freed_def GET_ISALLOCATED_def GET_W_def HDRP_def)

section \<open>Failing inputs of \<^verbatim>\<open>mm_realloc\<close>\<close>

text \<open>
  Claim C1, at a failing input. After \<^verbatim>\<open>mm_init\<close> and \<^verbatim>\<open>p = mm_malloc(8)\<close> the block
  \<open>p\<close> has 16 bytes and the block after it is free with 4080 bytes. The adjusted size of
  \<^verbatim>\<open>mm_realloc(p, 5000)\<close> is 5008, more than the 4096 bytes of the two blocks together.
  The call returns \<open>p\<close> and changes nothing: the arena is not grown and the block keeps
  its 16 bytes.
\<close>

theorem mm_realloc_free_neighbour_too_small:
  "mm_init arena0 = Some (st_init, 0) \<and> mm_malloc st_init 8 = Some (st_a, 65552) \<and>
   GET_ISALLOCATED (mem st_a) (HDRP (NEXT_BLKP (mem st_a) 65552)) = 0 \<and>
   unat (GET_SIZE (mem st_a) (HDRP 65552)) = 16 \<and>
   unat (GET_SIZE (mem st_a) (HDRP (NEXT_BLKP (mem st_a) 65552))) = 4080 \<and>
   mm_realloc st_a 65552 5000 = Some (Inr (st_a, 65552))"
  by (simp add: init_arena0 malloc_st_init)
    (simp add: st_a_def mm_eval)

text \<open>
  Claim C6, at a failing input. In the small arena, after \<^verbatim>\<open>mm_init\<close>,
  \<^verbatim>\<open>p = mm_malloc(8)\<close> and \<^verbatim>\<open>mm_malloc(4072)\<close> no free block is left and the arena
  cannot grow. \<^verbatim>\<open>mm_malloc(24)\<close> fails and leaves the state as it was, but
  \<^verbatim>\<open>mm_realloc(p, 24)\<close> does not return a failure: it passes the null pointer of the
  failed \<^verbatim>\<open>mm_malloc\<close> to \<^verbatim>\<open>memcpy\<close>.
\<close>

theorem mm_realloc_exhausted_arena:
  "mm_init small_arena0 = Some (sm_init, 0) \<and> mm_malloc sm_init 8 = Some (sm_a, 65552) \<and>
   mm_malloc sm_a 4072 = Some (sm_full, 65568) \<and>
   mm_malloc sm_full 24 = Some (sm_full, NULL) \<and>
   mm_realloc sm_full 65552 24 = Some (Inl Null_Dereference)"
  by (simp add: init_small_arena0 malloc_sm_init malloc_sm_a)
    (simp add: sm_full_def mm_eval)

text \<open>
  Claim C5, at a failing input. After \<^verbatim>\<open>mm_init\<close>, \<^verbatim>\<open>p = mm_malloc(8)\<close> and
  \<^verbatim>\<open>mm_malloc(8)\<close> (the state \<open>st_ab\<close>, \<open>p = 65552\<close>) the block \<open>p\<close> has 16 bytes, 8 of
  them payload, and the block after it is allocated, so \<^verbatim>\<open>mm_realloc(p, 24)\<close> takes the
  fallback path. It returns the new block 65584, and the words at offsets 8 and 12 of the
  new payload, which were 0, hold the footer word of the old block and the header word of
  the block after it: the copy took the 24 bytes of the new size, not the 8 bytes of the
  old payload.
\<close>

theorem mm_realloc_fallback_copies_new_size:
  "mm_malloc st_a 8 = Some (st_ab, 65568) \<and>
   unat (GET_SIZE (mem st_ab) (HDRP 65552)) = 16 \<and>
   GET_ISALLOCATED (mem st_ab) (HDRP (NEXT_BLKP (mem st_ab) 65552)) = 1 \<and>
   GET_W (mem st_ab) (FTRP (mem st_ab) 65552) = 17 \<and>
   GET_W (mem st_ab) (HDRP (NEXT_BLKP (mem st_ab) 65552)) = 17 \<and>
   GET_W (mem st_ab) (65584 + 8) = 0 \<and> GET_W (mem st_ab) (65584 + 12) = 0 \<and>
   (case mm_realloc st_ab 65552 24 of
      Some (Inr (s', q)) \<Rightarrow>
        q = 65584 \<and> GET_W (mem s') (65584 + 8) = 17 \<and> GET_W (mem s') (65584 + 12) = 17
    | _ \<Rightarrow> False)"
  by (simp add: malloc_st_a)
    (simp add: st_ab_def mm_eval)

section \<open>The link fields\<close>

text \<open>
  Claim C10. A link field holds the address modulo \<open>2 ^ 32\<close>: storing an address \<open>a\<close> as
  backward or forward link of the block at \<open>bp\<close> and reading the link back as a pointer
  gives \<open>a mod 2 ^ 32\<close>. This is \<open>a\<close> when \<open>a\<close> is below \<open>2 ^ 32\<close>, and differs from \<open>a\<close>
  for every address from \<open>2 ^ 32\<close> on.
\<close>

theorem link_fields_hold_32_bits:
  "unat (GET_PREV_PTR (SET_PREV_PTR m bp a) bp) = a mod 2 ^ 32 \<and>
   unat (GET_NEXT_PTR (SET_NEXT_PTR m bp a) bp) = a mod 2 ^ 32 \<and>
   (a < 2 ^ 32 \<longrightarrow>
      unat (GET_PREV_PTR (SET_PREV_PTR m bp a) bp) = a \<and>
      unat (GET_NEXT_PTR (SET_NEXT_PTR m bp a) bp) = a) \<and>
   (2 ^ 32 \<le> a \<longrightarrow>
      unat (GET_PREV_PTR (SET_PREV_PTR m bp a) bp) \<noteq> a \<and>
      unat (GET_NEXT_PTR (SET_NEXT_PTR m bp a) bp) \<noteq> a)"
proof -
  have r: "unat (of_nat a :: uint) = a mod 2 ^ 32"
    by (simp add: unat_of_nat)
  have lt: "a mod 2 ^ 32 < (2 :: nat) ^ 32"
    by simp
  have "2 ^ 32 \<le> a \<Longrightarrow> a mod 2 ^ 32 \<noteq> a"
    using lt by linarith
  then show ?thesis
    by (simp add: GET_PREV_PTR_def SET_PREV_PTR_def GET_NEXT_PTR_def SET_NEXT_PTR_def r)
qed

theorem link_fields_hold_32_bits_witness:
  "unat (GET_PREV_PTR (SET_PREV_PTR (mem st_a) 65568 65552) 65568) = 65552 \<and>
   unat (GET_NEXT_PTR (SET_NEXT_PTR (mem st_a) 65568 65552) 65568) = 65552 \<and>
   unat (GET_PREV_PTR (SET_PREV_PTR (mem st_a) 65568 4294967312) 65568) = 16 \<and>
   unat (GET_NEXT_PTR (SET_NEXT_PTR (mem st_a) 65568 4294967312) 65568) = 16"
  using link_fields_hold_32_bits [of "mem st_a" 65568 65552]
    link_fields_hold_32_bits [of "mem st_a" 65568 4294967312]
  by simp

section \<open>Machine arithmetic\<close>

lemma seven_eq_mask: "(7 :: 'a::len word) = mask 3"
  by (simp add: mask_eq_exp_minus_1)

lemma and_not_7_shift: "(x :: 'a::len word) AND NOT 7 = push_bit 3 (drop_bit 3 x)"
  unfolding seven_eq_mask
  by (rule bit_word_eqI) (auto simp add: bit_simps)

lemma unat_and_not_7: "unat ((x :: 'a::len word) AND NOT 7) = unat x div 8 * 8"
proof -
  have "unat x div 8 * 8 \<le> unat x" by simp
  also have "\<dots> < 2 ^ LENGTH('a)" by (rule unsigned_less)
  finally have lt: "unat x div 8 * 8 < 2 ^ LENGTH('a)" .
  have "unat (push_bit 3 (drop_bit 3 x)) = take_bit LENGTH('a) (push_bit 3 (drop_bit 3 (unat x)))"
    by (simp add: unsigned_push_bit_eq unat_drop_bit_eq)
  also have "\<dots> = unat x div 8 * 8"
    using lt by (simp add: push_bit_eq_mult drop_bit_eq_div take_bit_nat_eq_self_iff mult.commute)
  finally show ?thesis unfolding and_not_7_shift .
qed

lemma unat_ALIGN: "unat sz + 7 < 2 ^ 64 \<Longrightarrow> unat (ALIGN sz) = (unat sz + 7) div 8 * 8"
  unfolding ALIGN_def unat_and_not_7
  by (simp add: unat_word_ariths)

lemma unat_ucast_down: "unat (w :: size_t) < 2 ^ 32 \<Longrightarrow> unat (ucast w :: uint) = unat w"
  by (simp add: unsigned_ucast_eq take_bit_nat_eq_self_iff)

lemma sint_small: "unat (w :: uint) < 2 ^ 31 \<Longrightarrow> sint w = int (unat w)"
proof -
  assume a: "unat w < 2 ^ 31"
  have "int (unat w) < int (2 ^ 31)" using a by (simp only: of_nat_less_iff)
  then have hi: "uint w < 2 ^ 31" by simp
  have lo: "- (2 ^ 31) \<le> uint w" by (rule order_trans [of _ 0]) simp_all
  have "signed_take_bit 31 (uint w) = uint w"
    using lo hi by (rule signed_take_bit_int_eq_self)
  then show ?thesis by (simp add: sint_uint)
qed

lemma scast_small: "unat (w :: uint) = n \<Longrightarrow> n < 2 ^ 31 \<Longrightarrow> (scast w :: size_t) = of_nat n"
  by (simp add: scast_eq sint_small del: of_nat_unat)

lemma adjusted_size_value:
  assumes "unat sz \<le> 2 ^ 31 - 16"
  shows "unat (adjusted_size sz) = (unat sz + 15) div 8 * 8"
proof -
  have a: "unat (sz + 8) = unat sz + 8" using assms by (simp add: unat_word_ariths)
  have b: "unat (ALIGN (sz + 8)) = (unat sz + 15) div 8 * 8"
    using assms by (simp add: unat_ALIGN a)
  have c: "(unat sz + 15) div 8 * 8 < 2 ^ 31" using assms by simp
  show ?thesis
    unfolding adjusted_size_def using c by (simp add: unat_ucast_down b)
qed

text \<open>
  For a request of 1 to \<open>2 ^ 31 - 16\<close> bytes the adjusted size is the request plus the 8
  bytes of header and footer, rounded up to a multiple of 8, and at least 16.
\<close>

lemma adjusted_size_small_request:
  assumes "1 \<le> unat sz" and "unat sz \<le> 2 ^ 31 - 16"
  shows "sint (adjusted_size sz) = int ((unat sz + 8 + 7) div 8 * 8) \<and>
         8 dvd sint (adjusted_size sz) \<and> 16 \<le> sint (adjusted_size sz) \<and>
         (scast (adjusted_size sz) :: size_t) = of_nat ((unat sz + 8 + 7) div 8 * 8)"
proof -
  have e: "unat sz + 8 + 7 = unat sz + 15" by simp
  let ?n = "(unat sz + 15) div 8 * 8"
  have v: "unat (adjusted_size sz) = ?n" by (rule adjusted_size_value [OF assms(2)])
  have c: "?n < 2 ^ 31" using assms by simp
  have s: "sint (adjusted_size sz) = int ?n" using c by (simp add: sint_small v)
  have "16 \<le> ?n" using assms by simp
  then have d1: "16 \<le> sint (adjusted_size sz)" unfolding s by linarith
  have "8 dvd ?n" by simp
  then have d2: "8 dvd sint (adjusted_size sz)" unfolding s by presburger
  have d3: "(scast (adjusted_size sz) :: size_t) = of_nat ?n"
    using v c by (rule scast_small)
  show ?thesis unfolding e using s d1 d2 d3 by blast
qed

section \<open>Requests that overflow the adjusted size\<close>

text \<open>
  Claim C9, at a failing input. \<^verbatim>\<open>mm_malloc\<close> keeps \<^verbatim>\<open>ALIGN(size + DSIZE)\<close> in an
  \<^verbatim>\<open>int\<close>. For a request of \<open>2 ^ 32 - 8\<close> bytes the \<^verbatim>\<open>size_t\<close> value is \<open>2 ^ 32\<close>,
  which is what \<^verbatim>\<open>mm_realloc\<close> keeps in its \<^verbatim>\<open>size_t new_blk_size\<close>, and the
  \<^verbatim>\<open>int\<close> is 0: it is not the request plus 8 rounded up, and it is below the minimum
  block size of 16.
\<close>

theorem adjusted_size_overflow:
  "1 \<le> unat (4294967288 :: size_t) \<and>
   ALIGN (4294967288 + DSIZE) = 4294967296 \<and>
   sint (adjusted_size 4294967288) = 0 \<and>
   \<not> 16 \<le> sint (adjusted_size 4294967288) \<and>
   sint (adjusted_size 4294967288) \<noteq> int ((unat (4294967288 :: size_t) + 8 + 7) div 8 * 8)"
  by (simp add: adjusted_size_def ALIGN_def)

text \<open>
  What the adjusted size 0 does to the heap. After \<^verbatim>\<open>mm_init\<close> and \<^verbatim>\<open>p = mm_malloc(8)\<close>
  (the state \<open>st_a\<close>, \<open>p = 65552\<close>), \<^verbatim>\<open>mm_malloc(4294967288)\<close> runs \<^verbatim>\<open>allocate\<close> with a
  block size of 0 on the free block 65568. The call returns 65568. Afterwards the footer
  word of the block \<open>p\<close> is 1 where its header word is 17, and the block 65568 that the
  caller received is marked free in its header and is the tail of the free list.
\<close>

lemma mm_malloc_overflow_breaks_heap:
  "mm_init arena0 = Some (st_init, 0) \<and> mm_malloc st_init 8 = Some (st_a, 65552) \<and>
   mm_malloc st_a 4294967288 = Some (st_a_huge, 65568) \<and>
   GET_W (mem st_a_huge) (HDRP 65552) = 17 \<and>
   GET_W (mem st_a_huge) (FTRP (mem st_a_huge) 65552) = 1 \<and>
   GET_ISALLOCATED (mem st_a_huge) (HDRP 65568) = 0 \<and>
   free_list_tail st_a_huge = 65568"
  using malloc_st_a_huge
  by (simp add: init_arena0 malloc_st_init)
    (simp add: st_a_huge_def GET_W_def HDRP_def FTRP_def GET_SIZE_def GET_ISALLOCATED_def)

section \<open>Boundary tags\<close>

lemma of_nat_8_shift: "8 dvd n \<Longrightarrow> (of_nat n :: 'a::len word) = push_bit 3 (of_nat (n div 8))"
  by (auto simp add: push_bit_eq_mult elim!: dvdE)

lemma tag_size: "8 dvd n \<Longrightarrow> tag n al AND NOT 7 = of_nat n"
  unfolding tag_def seven_eq_mask
  by (subst (1 2) of_nat_8_shift, assumption, rule bit_word_eqI) (auto simp add: bit_simps)

lemma tag_alloc: "8 dvd n \<Longrightarrow> tag n al AND 1 = of_bool al"
  unfolding tag_def
  by (subst of_nat_8_shift, assumption, rule bit_word_eqI) (auto simp add: bit_simps)

lemma unat_of_nat_32: "n < 2 ^ 32 \<Longrightarrow> unat (of_nat n :: uint) = n"
  by (simp add: unat_of_nat)

lemma unat_of_nat_64: "n < 2 ^ 64 \<Longrightarrow> unat (of_nat n :: size_t) = n"
  by (simp add: unat_of_nat)

lemma ucast_of_nat_down: "(ucast (of_nat n :: size_t) :: uint) = of_nat n"
  by (rule bit_word_eqI) (auto simp add: bit_simps)

lemma ucast_of_nat_up: "n < 2 ^ 32 \<Longrightarrow> (ucast (of_nat n :: uint) :: size_t) = of_nat n"
  by (simp add: unsigned_of_nat take_bit_nat_eq_self)

lemma PUT_W_free: "PUT_W m a (PACK (of_nat n) 0) = m(a := tag n False)"
  by (simp add: PUT_W_def PACK_def tag_def ucast_of_nat_down)

lemma ucast_or_1: "(ucast ((x :: size_t) OR 1) :: uint) = ucast x OR 1"
  by (rule bit_word_eqI) (auto simp add: bit_simps)

lemma PUT_W_alloc: "PUT_W m a (PACK (of_nat n) 1) = m(a := tag n True)"
  by (simp add: PUT_W_def PACK_def tag_def ucast_or_1 ucast_of_nat_down)

lemma PUT_W_epilogue: "PUT_W m a (PACK 0 1) = m(a := tag 0 True)"
  by (simp add: PUT_W_def PACK_def tag_def)

lemma size_t_less: "a < 2 ^ 64 \<Longrightarrow> b < 2 ^ 64 \<Longrightarrow> (of_nat a :: size_t) < of_nat b \<longleftrightarrow> a < b"
  by (simp add: word_of_nat_less_iff take_bit_nat_eq_self)

lemma size_t_le: "a < 2 ^ 64 \<Longrightarrow> b < 2 ^ 64 \<Longrightarrow> (of_nat a :: size_t) \<le> of_nat b \<longleftrightarrow> a \<le> b"
  by (simp add: word_of_nat_less_eq_iff take_bit_nat_eq_self)

lemma GET_SIZE_tag:
  "m a = tag n al \<Longrightarrow> 8 dvd n \<Longrightarrow> GET_SIZE m a = of_nat n"
  by (simp only: GET_SIZE_def GET_W_def tag_size)

lemma GET_ISALLOCATED_tag:
  "m a = tag n al \<Longrightarrow> 8 dvd n \<Longrightarrow> GET_ISALLOCATED m a = of_bool al"
  by (simp only: GET_ISALLOCATED_def GET_W_def tag_alloc)


section \<open>Block chains\<close>

lemma chain_append:
  "chain m a (xs @ ys) e \<longleftrightarrow> (\<exists>c. chain m a xs c \<and> chain m c ys e)"
  by (induction xs arbitrary: a) auto

lemma chain_le: "chain m a bs e \<Longrightarrow> a \<le> e"
  by (induction bs arbitrary: a) fastforce+

lemma chain_mem:
  "chain m a bs e \<Longrightarrow> (p, n, al) \<in> set bs \<Longrightarrow>
   a \<le> p \<and> p + n \<le> e \<and> 8 dvd n \<and> 8 \<le> n \<and> m (p - 4) = tag n al \<and> m (p + n - 8) = tag n al"
proof (induction bs arbitrary: a)
  case Nil
  then show ?case by simp
next
  case (Cons b bs)
  obtain q k al' where b: "b = (q, k, al')" by (cases b)
  from Cons.prems(1) have tl: "chain m (q + k) bs e" and q: "q = a"
    by (auto simp add: b)
  show ?case
  proof (cases "(p, n, al) = b")
    case True
    with Cons.prems(1) chain_le [OF tl] show ?thesis by (auto simp add: b)
  next
    case False
    with Cons.prems(2) have "(p, n, al) \<in> set bs" by simp
    from Cons.IH [OF tl this] q show ?thesis by simp
  qed
qed

lemma chain_cong:
  "chain m a bs e \<Longrightarrow> (\<And>x. a \<le> x + 4 \<Longrightarrow> x + 8 \<le> e \<Longrightarrow> m' x = m x) \<Longrightarrow> chain m' a bs e"
proof (induction bs arbitrary: a)
  case Nil
  then show ?case by simp
next
  case (Cons b bs)
  obtain q k al' where b: "b = (q, k, al')" by (cases b)
  from Cons.prems(1) have tl: "chain m (q + k) bs e" and q: "q = a" and k: "8 \<le> k"
    by (auto simp add: b)
  have le: "q + k \<le> e" by (rule chain_le [OF tl])
  have "chain m' (q + k) bs e"
    by (rule Cons.IH [OF tl]) (rule Cons.prems(2), use q in simp_all)
  moreover have "m' (q - 4) = m (q - 4)"
    by (rule Cons.prems(2)) (use q k le in simp_all)
  moreover have "m' (q + k - 8) = m (q + k - 8)"
    by (rule Cons.prems(2)) (use q k le in simp_all)
  ultimately show ?case using Cons.prems(1) by (auto simp add: b)
qed

lemma chain_split:
  assumes "chain m a bs e" and "(p, n, al) \<in> set bs"
  shows "\<exists>pre post. bs = pre @ (p, n, al) # post \<and> chain m a pre p \<and> chain m (p + n) post e"
proof -
  from assms(2) obtain pre post where bs: "bs = pre @ (p, n, al) # post"
    by (auto simp add: in_set_conv_decomp)
  with assms(1) show ?thesis by (auto simp add: chain_append)
qed

lemma chain_disjoint:
  "chain m a bs e \<Longrightarrow> (p, n, al) \<in> set bs \<Longrightarrow> (q, k, al') \<in> set bs \<Longrightarrow>
   (p, n, al) = (q, k, al') \<or> p + n \<le> q \<or> q + k \<le> p"
proof (induction bs arbitrary: a)
  case Nil
  then show ?case by simp
next
  case (Cons b bs)
  obtain r j al'' where b: "b = (r, j, al'')" by (cases b)
  from Cons.prems(1) have tl: "chain m (r + j) bs e" and r: "r = a"
    by (auto simp add: b)
  consider "(p, n, al) = b" "(q, k, al') = b" | "(p, n, al) = b" "(q, k, al') \<in> set bs"
    | "(p, n, al) \<in> set bs" "(q, k, al') = b" | "(p, n, al) \<in> set bs" "(q, k, al') \<in> set bs"
    using Cons.prems(2,3) by auto
  then show ?case
  proof cases
    case 1
    then show ?thesis by simp
  next
    case 2
    with chain_mem [OF tl 2(2)] show ?thesis by (simp add: b)
  next
    case 3
    with chain_mem [OF tl 3(1)] show ?thesis by (simp add: b)
  next
    case 4
    then show ?thesis by (rule Cons.IH [OF tl])
  qed
qed

lemma chain_same_addr:
  assumes "chain m a bs e" and "(p, n, al) \<in> set bs" and "(p, k, al') \<in> set bs"
  shows "k = n \<and> al' = al"
  using chain_disjoint [OF assms] chain_mem [OF assms(1,2)] chain_mem [OF assms(1,3)]
  by auto

lemma chain_distinct: "chain m a bs e \<Longrightarrow> distinct (map fst bs)"
proof (induction bs arbitrary: a)
  case Nil
  then show ?case by simp
next
  case (Cons b bs)
  obtain r j al'' where b: "b = (r, j, al'')" by (cases b)
  from Cons.prems(1) have tl: "chain m (r + j) bs e" and j: "8 \<le> j"
    by (auto simp add: b)
  have "r \<notin> fst ` set bs"
  proof
    assume "r \<in> fst ` set bs"
    then obtain n al where "(r, n, al) \<in> set bs" by auto
    from chain_mem [OF tl this] j show False by simp
  qed
  with Cons.IH [OF tl] show ?case by (simp add: b)
qed

lemma chain_rebuild:
  assumes pre: "chain m a pre c" and post: "chain m d post e" and mid: "chain m' c mid d"
    and lo: "\<And>x. x + 8 \<le> c \<Longrightarrow> m' x = m x" and hi: "\<And>x. d \<le> x + 4 \<Longrightarrow> m' x = m x"
  shows "chain m' a (pre @ mid @ post) e"
proof -
  have "chain m' a pre c" by (rule chain_cong [OF pre]) (rule lo)
  moreover have "chain m' d post e" by (rule chain_cong [OF post]) (rule hi)
  ultimately show ?thesis using mid by (auto simp add: chain_append)
qed

section \<open>Doubly linked lists\<close>

lemma first_or_simps [simp]: "first_or d [] = d" "first_or d (x # xs) = x"
  by (simp_all add: first_or_def)

lemma last_or_simps [simp]: "last_or d [] = d" "last_or d (xs @ [x]) = x"
  by (simp_all add: last_or_def)

lemma first_or_append: "first_or d (xs @ ys) = first_or (first_or d ys) xs"
  by (cases xs) simp_all

lemma last_or_Cons: "last_or d (x # xs) = last_or x xs"
  by (simp add: last_or_def)

lemma links_append:
  "links m nx (xs @ ys) pv \<longleftrightarrow> links m nx xs (first_or pv ys) \<and> links m (last_or nx xs) ys pv"
  by (induction xs arbitrary: nx) (auto simp add: first_or_append last_or_Cons)

lemma links_cong:
  "links m nx xs pv \<Longrightarrow> (\<And>x. x \<in> set xs \<Longrightarrow> m' x = m x \<and> m' (x + 4) = m (x + 4)) \<Longrightarrow>
   links m' nx xs pv"
  by (induction xs arbitrary: nx) auto


section \<open>Removing a node\<close>

lemma links_upd_other:
  "links m nx xs pv \<Longrightarrow> (\<forall>y \<in> set xs. w \<noteq> y \<and> w \<noteq> y + 4) \<Longrightarrow> links (m(w := v)) nx xs pv"
  by (erule links_cong) auto

lemma of_nat_32_eq_0: "0 < x \<Longrightarrow> x < 2 ^ 32 \<Longrightarrow> (of_nat x :: uint) \<noteq> 0"
  by (simp add: of_nat_neq_0)

lemma wf_nodes_neq:
  assumes "wf_nodes zs" "a \<in> set zs" "b \<in> set zs" "a \<noteq> b"
  shows "a \<noteq> b + 4" "a + 4 \<noteq> b" "b \<noteq> a + 4" "b + 4 \<noteq> a"
proof -
  from assms have "a + 8 \<le> b \<or> b + 8 \<le> a" unfolding wf_nodes_def by blast
  then show "a \<noteq> b + 4" "a + 4 \<noteq> b" "b \<noteq> a + 4" "b + 4 \<noteq> a" by auto
qed

lemma links_upd_node:
  assumes "links m nx zs pv" and "wf_nodes all" and "set zs \<subseteq> set all" and "w \<in> set all"
    and "w \<notin> set zs"
  shows "links (m(w := v)) nx zs pv" and "links (m(w + 4 := v)) nx zs pv"
proof -
  have *: "\<forall>y \<in> set zs. w \<noteq> y \<and> w \<noteq> y + 4 \<and> w + 4 \<noteq> y \<and> w + 4 \<noteq> y + 4"
  proof
    fix y assume y: "y \<in> set zs"
    with assms(3,5) have "y \<in> set all" "w \<noteq> y" by auto
    from wf_nodes_neq [OF assms(2) assms(4) this] \<open>w \<noteq> y\<close>
    show "w \<noteq> y \<and> w \<noteq> y + 4 \<and> w + 4 \<noteq> y \<and> w + 4 \<noteq> y + 4" by simp
  qed
  show "links (m(w := v)) nx zs pv" by (rule links_upd_other [OF assms(1)]) (use * in blast)
  show "links (m(w + 4 := v)) nx zs pv" by (rule links_upd_other [OF assms(1)]) (use * in blast)
qed

lemma remove_node_fields [simp]:
  "mem_brk (remove_node s x) = mem_brk s" "mem_max_addr (remove_node s x) = mem_max_addr s"
  "heap_listp (remove_node s x) = heap_listp s"
  by (simp_all add: remove_node_def Let_def)

lemma remove_node_explicit:
  assumes nx: "mem s (x + 4) = of_nat (last_or 0 xs)" and px: "mem s x = of_nat (first_or 0 ys)"
    and w: "wf_nodes (xs @ x # ys)" and d: "distinct (xs @ x # ys)"
  shows "remove_node s x =
     s\<lparr>mem := (if ys = [] then (if xs = [] then mem s else (mem s)(last xs := 0))
               else (if xs = [] then (mem s)(hd ys + 4 := 0)
                     else (mem s)(hd ys + 4 := of_nat (last xs), last xs := of_nat (hd ys)))),
       free_list_tail := (if xs = [] then first_or 0 ys else free_list_tail s)\<rparr>"
proof -
  have bnd: "\<And>y. y \<in> set (xs @ x # ys) \<Longrightarrow> 0 < y \<and> y < 2 ^ 32"
    using w unfolding wf_nodes_def by blast
  show ?thesis
  proof (cases ys)
    case Nil
    show ?thesis
    proof (cases xs rule: rev_cases)
      case Nil
      with \<open>ys = []\<close> nx px show ?thesis
        by (simp add: remove_node_def GET_PREV_PTR_def GET_NEXT_PTR_def)
    next
      case (snoc xs' l)
      have l: "0 < l \<and> l < 2 ^ 32" by (rule bnd) (simp add: snoc)
      then have "(of_nat l :: uint) \<noteq> 0" by (simp add: of_nat_32_eq_0)
      with \<open>ys = []\<close> snoc nx px l show ?thesis
        by (simp add: remove_node_def GET_PREV_PTR_def GET_NEXT_PTR_def SET_PREV_PTR_def
            unat_of_nat_32)
    qed
  next
    case (Cons f ys')
    have f: "0 < f \<and> f < 2 ^ 32" by (rule bnd) (simp add: Cons)
    then have f0: "(of_nat f :: uint) \<noteq> 0" by (simp add: of_nat_32_eq_0)
    have xf: "x \<noteq> f + 4" "x + 4 \<noteq> f + 4"
      using wf_nodes_neq [OF w, of x f] d by (simp_all add: Cons)
    show ?thesis
    proof (cases xs rule: rev_cases)
      case Nil
      with Cons nx px f f0 xf show ?thesis
        by (simp add: remove_node_def GET_PREV_PTR_def GET_NEXT_PTR_def SET_NEXT_PTR_def
            unat_of_nat_32 Let_def)
    next
      case (snoc xs' l)
      have l: "0 < l \<and> l < 2 ^ 32" by (rule bnd) (simp add: snoc)
      then have "(of_nat l :: uint) \<noteq> 0" by (simp add: of_nat_32_eq_0)
      with Cons snoc nx px f f0 xf l show ?thesis
        by (simp add: remove_node_def GET_PREV_PTR_def GET_NEXT_PTR_def SET_NEXT_PTR_def
            SET_PREV_PTR_def unat_of_nat_32 Let_def)
    qed
  qed
qed

lemma remove_node_links:
  assumes l: "links (mem s) 0 (xs @ x # ys) 0"
    and t: "free_list_tail s = first_or 0 (xs @ x # ys)"
    and w: "wf_nodes (xs @ x # ys)" and d: "distinct (xs @ x # ys)"
  shows "links (mem (remove_node s x)) 0 (xs @ ys) 0"
    and "free_list_tail (remove_node s x) = first_or 0 (xs @ ys)"
    and "\<And>a. (\<forall>y \<in> set (xs @ ys). a \<noteq> y \<and> a \<noteq> y + 4) \<Longrightarrow> mem (remove_node s x) a = mem s a"
proof -
  let ?m = "mem s"
  from l have lx: "links ?m 0 xs x" and nx: "?m (x + 4) = of_nat (last_or 0 xs)"
    and px: "?m x = of_nat (first_or 0 ys)" and ly: "links ?m x ys 0"
    by (simp_all add: links_append)
  note e = remove_node_explicit [OF nx px w d]
  show "free_list_tail (remove_node s x) = first_or 0 (xs @ ys)"
    using t by (cases xs) (simp_all add: e)
  show "\<And>a. (\<forall>y \<in> set (xs @ ys). a \<noteq> y \<and> a \<noteq> y + 4) \<Longrightarrow> mem (remove_node s x) a = mem s a"
    by (cases xs rule: rev_cases; cases ys) (auto simp add: e)
  let ?all = "xs @ x # ys"
  show "links (mem (remove_node s x)) 0 (xs @ ys) 0"
  proof (cases ys)
    case Nil
    show ?thesis
    proof (cases xs rule: rev_cases)
      case Nil
      with \<open>ys = []\<close> show ?thesis by simp
    next
      case (snoc xs' l)
      from lx have a: "links ?m 0 xs' l" and b: "?m (l + 4) = of_nat (last_or 0 xs')"
        by (simp_all add: snoc links_append)
      have "links (?m(l := 0)) 0 xs' l"
        by (rule links_upd_node(1) [OF a w]) (use d snoc in auto)
      with b show ?thesis
        by (simp add: e snoc Nil links_append)
    qed
  next
    case (Cons f ys')
    from ly have c: "links ?m f ys' 0" and f1: "?m f = of_nat (first_or 0 ys')"
      by (simp_all add: Cons)
    show ?thesis
    proof (cases xs rule: rev_cases)
      case Nil
      have "links (?m(f + 4 := 0)) f ys' 0"
        by (rule links_upd_node(2) [OF c w]) (use d Cons in auto)
      with f1 show ?thesis
        by (simp add: e Nil Cons)
    next
      case (snoc xs' l)
      from lx have a: "links ?m 0 xs' l" and b: "?m (l + 4) = of_nat (last_or 0 xs')"
        by (simp_all add: snoc links_append)
      have lf: "l \<noteq> f" "l \<noteq> f + 4" "l + 4 \<noteq> f"
        using wf_nodes_neq [OF w, of l f] d by (auto simp add: snoc Cons)
      have "links (?m(f + 4 := of_nat l)) 0 xs' l"
        by (rule links_upd_node(2) [OF a w]) (use d snoc Cons in auto)
      then have 1: "links (?m(f + 4 := of_nat l, l := of_nat f)) 0 xs' l"
        by (rule links_upd_node(1) [OF _ w]) (use d snoc Cons in auto)
      have "links (?m(f + 4 := of_nat l)) f ys' 0"
        by (rule links_upd_node(2) [OF c w]) (use d snoc Cons in auto)
      then have 2: "links (?m(f + 4 := of_nat l, l := of_nat f)) f ys' 0"
        by (rule links_upd_node(1) [OF _ w]) (use d snoc Cons in auto)
      from 1 2 show ?thesis using b f1 lf
        by (simp add: e snoc Cons links_append)
    qed
  qed
qed


section \<open>Inserting a node\<close>

lemma insort_key_split:
  "insort_key snd (bp, n) fl =
     takeWhile (\<lambda>y. snd y < n) fl @ (bp, n) # dropWhile (\<lambda>y. snd y < n) fl"
  by (induction fl) auto

lemma insert_node_loop_walk:
  assumes "links m nx (map fst zs) 0"
    and "\<forall>(y, k) \<in> set zs. 0 < y \<and> y < 2 ^ 32 \<and> 8 dvd k \<and> k < 2 ^ 32 \<and> (\<exists>al. m (y - 4) = tag k al)"
    and "n < 2 ^ 64"
  shows "insert_node_loop m (of_nat n) (first_or 0 (map fst zs)) nxt =
     Some (first_or 0 (map fst (dropWhile (\<lambda>y. snd y < n) zs)),
           last_or nxt (map fst (takeWhile (\<lambda>y. snd y < n) zs)))"
  using assms(1,2)
proof (induction zs arbitrary: nx nxt)
  case Nil
  show ?case by (subst insert_node_loop.simps) simp
next
  case (Cons z zs)
  obtain y k where z: "z = (y, k)" by (cases z)
  from Cons.prems(2) obtain al where y: "0 < y" "y < 2 ^ 32" and k: "8 dvd k" "k < 2 ^ 32"
    and hd: "m (y - 4) = tag k al"
    by (auto simp add: z)
  from Cons.prems(1) have py: "m y = of_nat (first_or 0 (map fst zs))" and tl: "links m y (map fst zs) 0"
    by (simp_all add: z)
  have sz: "(ucast (GET_SIZE m (HDRP y)) :: size_t) = of_nat k"
    using k by (simp add: HDRP_def GET_SIZE_tag [of m "y - 4", OF hd] ucast_of_nat_up)
  have cmp: "(ucast (GET_SIZE m (HDRP y)) :: size_t) < of_nat n \<longleftrightarrow> k < n"
    unfolding sz using k assms(3) by (subst size_t_less) simp_all
  have b: "first_or 0 (map fst zs) < 2 ^ 32"
    using Cons.prems(2) by (cases zs) auto
  have rd: "unat (GET_PREV_PTR m y) = first_or 0 (map fst zs)"
    using b by (simp add: GET_PREV_PTR_def py unat_of_nat_32)
  show ?case
  proof (cases "k < n")
    case True
    have "insert_node_loop m (of_nat n) y nxt
        = insert_node_loop m (of_nat n) (first_or 0 (map fst zs)) y"
      by (subst insert_node_loop.simps) (use y cmp True rd in simp)
    also have "\<dots> = Some (first_or 0 (map fst (dropWhile (\<lambda>y. snd y < n) zs)),
           last_or y (map fst (takeWhile (\<lambda>y. snd y < n) zs)))"
      by (rule Cons.IH [OF tl]) (use Cons.prems(2) in simp)
    finally show ?thesis using True by (simp add: z last_or_Cons)
  next
    case False
    have "insert_node_loop m (of_nat n) y nxt = Some (y, nxt)"
      by (subst insert_node_loop.simps) (use cmp False in simp)
    then show ?thesis using False by (simp add: z)
  qed
qed

lemma insert_node_core:
  assumes loop: "insert_node_loop (mem s) blk (free_list_tail s) 0 = Some (first_or 0 Y, last_or 0 X)"
    and l: "links (mem s) 0 (X @ Y) 0" and t: "free_list_tail s = first_or 0 (X @ Y)"
    and w: "wf_nodes (bp # X @ Y)" and d: "distinct (bp # X @ Y)"
  shows "\<exists>s'. insert_node s bp blk = Some s' \<and>
     links (mem s') 0 (X @ bp # Y) 0 \<and> free_list_tail s' = first_or 0 (X @ bp # Y) \<and>
     (\<forall>a. (\<forall>y \<in> set (bp # X @ Y). a \<noteq> y \<and> a \<noteq> y + 4) \<longrightarrow> mem s' a = mem s a) \<and>
     mem_brk s' = mem_brk s \<and> mem_max_addr s' = mem_max_addr s \<and> heap_listp s' = heap_listp s"
proof -
  let ?m = "mem s"
  let ?all = "bp # X @ Y"
  have bnd: "\<And>y. y \<in> set ?all \<Longrightarrow> 0 < y \<and> y < 2 ^ 32"
    using w unfolding wf_nodes_def by blast
  have sub: "set X \<subseteq> set ?all" "set Y \<subseteq> set ?all"
    by auto
  have bpX: "bp \<notin> set X" and bpY: "bp \<notin> set Y" and dXY: "distinct (X @ Y)"
    using d by auto
  from l have lX: "links ?m 0 X (first_or 0 Y)" and lY: "links ?m (last_or 0 X) Y 0"
    by (simp_all add: links_append)
  have bp0: "bp \<noteq> 0" using bnd [of bp] by simp
  show ?thesis
  proof (cases Y)
    case Nil
    note Y = Nil
    show ?thesis
    proof (cases X rule: rev_cases)
      case Nil
      with Y loop bp0 show ?thesis
        by (simp add: insert_node_def SET_NEXT_PTR_def SET_PREV_PTR_def)
    next
      case (snoc X' l)
      have l0: "l \<noteq> 0" using bnd [of l] snoc by auto
      have lbp: "l \<noteq> bp" "l \<noteq> bp + 4" "l + 4 \<noteq> bp"
        using wf_nodes_neq [OF w, of l bp] bpX snoc by auto
      from lX have a: "links ?m 0 X' l" and b: "?m (l + 4) = of_nat (last_or 0 X')"
        by (simp_all add: snoc links_append)
      have "links (?m(bp := 0)) 0 X' l"
        by (rule links_upd_node(1) [OF a w]) (use bpX snoc in auto)
      then have "links (?m(bp := 0, bp + 4 := of_nat l)) 0 X' l"
        by (rule links_upd_node(2) [OF _ w]) (use bpX snoc in auto)
      then have "links (?m(bp := 0, bp + 4 := of_nat l, l := of_nat bp)) 0 X' l"
        by (rule links_upd_node(1) [OF _ w]) (use dXY snoc in auto)
      with Y snoc loop l0 lbp b t show ?thesis
        by (simp add: insert_node_def SET_NEXT_PTR_def SET_PREV_PTR_def links_append
            first_or_append)
    qed
  next
    case (Cons f Y')
    note Y = Cons
    have f0: "f \<noteq> 0" using bnd [of f] Y by auto
    have fbp: "f \<noteq> bp" "f \<noteq> bp + 4" "f + 4 \<noteq> bp"
      using wf_nodes_neq [OF w, of f bp] bpY Y by auto
    from lY have c: "links ?m f Y' 0" and f1: "?m f = of_nat (first_or 0 Y')"
      by (simp_all add: Y)
    show ?thesis
    proof (cases X rule: rev_cases)
      case Nil
      have "links (?m(bp + 4 := 0)) f Y' 0"
        by (rule links_upd_node(2) [OF c w]) (use bpY Y in auto)
      then have "links (?m(bp + 4 := 0, bp := of_nat f)) f Y' 0"
        by (rule links_upd_node(1) [OF _ w]) (use bpY Y in auto)
      then have "links (?m(bp + 4 := 0, bp := of_nat f, f + 4 := of_nat bp)) f Y' 0"
        by (rule links_upd_node(2) [OF _ w]) (use dXY Y in auto)
      with Y Nil loop f0 fbp f1 show ?thesis
        by (simp add: insert_node_def SET_NEXT_PTR_def SET_PREV_PTR_def links_append)
    next
      case (snoc X' l)
      have l0: "l \<noteq> 0" using bnd [of l] snoc by auto
      have lbp: "l \<noteq> bp" "l \<noteq> bp + 4" "l + 4 \<noteq> bp"
        using wf_nodes_neq [OF w, of l bp] bpX snoc by auto
      have lf: "l \<noteq> f" "l \<noteq> f + 4" "l + 4 \<noteq> f"
        using wf_nodes_neq [OF w, of l f] dXY snoc Y by auto
      from lX have a: "links ?m 0 X' l" and b: "?m (l + 4) = of_nat (last_or 0 X')"
        by (simp_all add: snoc links_append)
      let ?m' = "?m(bp + 4 := of_nat l, bp := of_nat f, f + 4 := of_nat bp, l := of_nat bp)"
      have "links (?m(bp + 4 := of_nat l)) 0 X' l"
        by (rule links_upd_node(2) [OF a w]) (use bpX snoc in auto)
      then have "links (?m(bp + 4 := of_nat l, bp := of_nat f)) 0 X' l"
        by (rule links_upd_node(1) [OF _ w]) (use bpX snoc in auto)
      then have "links (?m(bp + 4 := of_nat l, bp := of_nat f, f + 4 := of_nat bp)) 0 X' l"
        by (rule links_upd_node(2) [OF _ w]) (use dXY snoc Y in auto)
      then have 1: "links ?m' 0 X' l"
        by (rule links_upd_node(1) [OF _ w]) (use dXY snoc Y in auto)
      have "links (?m(bp + 4 := of_nat l)) f Y' 0"
        by (rule links_upd_node(2) [OF c w]) (use bpY Y in auto)
      then have "links (?m(bp + 4 := of_nat l, bp := of_nat f)) f Y' 0"
        by (rule links_upd_node(1) [OF _ w]) (use bpY Y in auto)
      then have "links (?m(bp + 4 := of_nat l, bp := of_nat f, f + 4 := of_nat bp)) f Y' 0"
        by (rule links_upd_node(2) [OF _ w]) (use dXY snoc Y in auto)
      then have 2: "links ?m' f Y' 0"
        by (rule links_upd_node(1) [OF _ w]) (use dXY snoc Y in auto)
      from 1 2 Y snoc loop l0 f0 lbp fbp lf b f1 t show ?thesis
        by (simp add: insert_node_def SET_NEXT_PTR_def SET_PREV_PTR_def links_append
            first_or_append)
    qed
  qed
qed

lemma insert_node_links:
  assumes l: "links (mem s) 0 (map fst fl) 0"
    and t: "free_list_tail s = first_or 0 (map fst fl)"
    and w: "wf_nodes (bp # map fst fl)" and d: "distinct (bp # map fst fl)"
    and h: "\<forall>(y, k) \<in> set fl. 8 dvd k \<and> k < 2 ^ 32 \<and> (\<exists>al. mem s (y - 4) = tag k al)"
    and n: "n < 2 ^ 64"
  shows "\<exists>s'. insert_node s bp (of_nat n) = Some s' \<and>
     links (mem s') 0 (map fst (insort_key snd (bp, n) fl)) 0 \<and>
     free_list_tail s' = first_or 0 (map fst (insort_key snd (bp, n) fl)) \<and>
     (\<forall>a. (\<forall>y \<in> set (bp # map fst fl). a \<noteq> y \<and> a \<noteq> y + 4) \<longrightarrow> mem s' a = mem s a) \<and>
     mem_brk s' = mem_brk s \<and> mem_max_addr s' = mem_max_addr s \<and> heap_listp s' = heap_listp s"
proof -
  let ?m = "mem s"
  define X where "X = map fst (takeWhile (\<lambda>y. snd y < n) fl)"
  define Y where "Y = map fst (dropWhile (\<lambda>y. snd y < n) fl)"
  have fl: "map fst fl = X @ Y"
    unfolding X_def Y_def by (simp flip: map_append)
  have ins: "map fst (insort_key snd (bp, n) fl) = X @ bp # Y"
    unfolding X_def Y_def by (simp add: insort_key_split)
  have bnd: "\<And>y. y \<in> set (bp # map fst fl) \<Longrightarrow> 0 < y \<and> y < 2 ^ 32"
    using w unfolding wf_nodes_def by blast
  have h': "\<forall>(y, k) \<in> set fl. 0 < y \<and> y < 2 ^ 32 \<and> 8 dvd k \<and> k < 2 ^ 32 \<and> (\<exists>al. ?m (y - 4) = tag k al)"
  proof (clarify)
    fix y k assume yk: "(y, k) \<in> set fl"
    then have "y \<in> set (bp # map fst fl)" by force
    from bnd [OF this] h yk
    show "0 < y \<and> y < 2 ^ 32 \<and> 8 dvd k \<and> k < 2 ^ 32 \<and> (\<exists>al. ?m (y - 4) = tag k al)"
      by blast
  qed
  have loop: "insert_node_loop ?m (of_nat n) (free_list_tail s) 0 = Some (first_or 0 Y, last_or 0 X)"
    unfolding t X_def Y_def by (rule insert_node_loop_walk [OF l h' n])
  show ?thesis
    unfolding ins using insert_node_core [OF loop, of bp] l t w d unfolding fl by simp
qed


section \<open>The arena\<close>

lemma find_fitting_blk_loop_walk:
  assumes "links m nx (map fst zs) 0"
    and "\<forall>(y, k) \<in> set zs. 0 < y \<and> y < 2 ^ 32 \<and> 8 dvd k \<and> k < 2 ^ 32 \<and> (\<exists>al. m (y - 4) = tag k al)"
    and "n < 2 ^ 64"
  shows "find_fitting_blk_loop m (of_nat n) (first_or 0 (map fst zs)) =
     Some (first_or 0 (map fst (dropWhile (\<lambda>y. snd y < n) zs)))"
  using assms(1,2)
proof (induction zs arbitrary: nx)
  case Nil
  show ?case by (subst find_fitting_blk_loop.simps) simp
next
  case (Cons z zs)
  obtain y k where z: "z = (y, k)" by (cases z)
  from Cons.prems(2) obtain al where y: "0 < y" "y < 2 ^ 32" and k: "8 dvd k" "k < 2 ^ 32"
    and hd: "m (y - 4) = tag k al"
    by (auto simp add: z)
  from Cons.prems(1) have py: "m y = of_nat (first_or 0 (map fst zs))" and tl: "links m y (map fst zs) 0"
    by (simp_all add: z)
  have sz: "(ucast (GET_SIZE m (HDRP y)) :: size_t) = of_nat k"
    using k by (simp add: HDRP_def GET_SIZE_tag [of m "y - 4", OF hd] ucast_of_nat_up)
  have cmp: "(ucast (GET_SIZE m (HDRP y)) :: size_t) < of_nat n \<longleftrightarrow> k < n"
    unfolding sz using k assms(3) by (subst size_t_less) simp_all
  have b: "first_or 0 (map fst zs) < 2 ^ 32"
    using Cons.prems(2) by (cases zs) auto
  have rd: "unat (GET_PREV_PTR m y) = first_or 0 (map fst zs)"
    using b by (simp add: GET_PREV_PTR_def py unat_of_nat_32)
  show ?case
  proof (cases "k < n")
    case True
    have "find_fitting_blk_loop m (of_nat n) y
        = find_fitting_blk_loop m (of_nat n) (first_or 0 (map fst zs))"
      by (subst find_fitting_blk_loop.simps) (use y cmp True rd in simp)
    also have "\<dots> = Some (first_or 0 (map fst (dropWhile (\<lambda>y. snd y < n) zs)))"
      by (rule Cons.IH [OF tl]) (use Cons.prems(2) in simp)
    finally show ?thesis using True by (simp add: z)
  next
    case False
    have "find_fitting_blk_loop m (of_nat n) y = Some y"
      by (subst find_fitting_blk_loop.simps) (use cmp False in simp)
    then show ?thesis using False by (simp add: z)
  qed
qed

lemma arena_blk:
  assumes "arena s bs" and "(p, n, al) \<in> set bs"
  shows "heap_listp s \<le> p" "4 \<le> p" "p + n \<le> mem_brk s" "p + n \<le> 2 ^ 32" "8 dvd n" "8 \<le> n"
    "mem s (p - 4) = tag n al" "mem s (p + n - 8) = tag n al"
proof -
  from assms(1) have c: "chain (mem s) (heap_listp s) bs (mem_brk s)" and h: "4 \<le> heap_listp s"
    and b: "mem_brk s \<le> 2 ^ 32"
    by (auto simp add: arena_def)
  from chain_mem [OF c assms(2)] h b
  show "heap_listp s \<le> p" "4 \<le> p" "p + n \<le> mem_brk s" "p + n \<le> 2 ^ 32" "8 dvd n" "8 \<le> n"
    "mem s (p - 4) = tag n al" "mem s (p + n - 8) = tag n al"
    by auto
qed

lemma arena_free_blk:
  assumes "arena s bs" and "(p, n, False) \<in> set bs"
  shows "16 \<le> n"
proof -
  from assms(1) have "bs \<noteq> []" "hd bs = (heap_listp s, 8, True)"
    and t: "\<forall>(p, n, al) \<in> set (tl bs). 16 \<le> n"
    by (auto simp add: arena_def)
  with assms(2) have "(p, n, False) \<in> set (tl bs)"
    by (cases bs) auto
  with t show ?thesis by auto
qed

lemma arena_disjoint:
  assumes "arena s bs" and "(p, n, al) \<in> set bs" and "(q, k, al') \<in> set bs"
  shows "(p, n, al) = (q, k, al') \<or> p + n \<le> q \<or> q + k \<le> p"
  using assms chain_disjoint unfolding arena_def by blast

lemma arena_same_addr:
  assumes "arena s bs" and "(p, n, al) \<in> set bs" and "(p, k, al') \<in> set bs"
  shows "k = n" "al' = al"
  using assms chain_same_addr unfolding arena_def by blast+

lemma arena_nodes:
  assumes a: "arena s bs" and f: "set fl \<subseteq> free_of bs"
  shows "wf_nodes (map fst fl)"
    and "\<forall>(y, k) \<in> set fl. 8 dvd k \<and> k < 2 ^ 32 \<and> (\<exists>al. mem s (y - 4) = tag k al)"
proof -
  have mem: "\<And>y k. (y, k) \<in> set fl \<Longrightarrow> (y, k, False) \<in> set bs"
    using f by (auto simp add: free_of_def)
  show "\<forall>(y, k) \<in> set fl. 8 dvd k \<and> k < 2 ^ 32 \<and> (\<exists>al. mem s (y - 4) = tag k al)"
  proof (clarify)
    fix y k assume "(y, k) \<in> set fl"
    note b = arena_blk [OF a mem [OF this]]
    from b(2,4) have "k < 2 ^ 32" by simp
    with b(5,7) show "8 dvd k \<and> k < 2 ^ 32 \<and> (\<exists>al. mem s (y - 4) = tag k al)" by blast
  qed
  show "wf_nodes (map fst fl)"
    unfolding wf_nodes_def
  proof (intro conjI ballI impI)
    fix y assume "y \<in> set (map fst fl)"
    then obtain k where "(y, k) \<in> set fl" by auto
    note b = arena_blk [OF a mem [OF this]]
    from b(2,4,6) show "0 < y" "y < 2 ^ 32" by simp_all
  next
    fix y z assume "y \<in> set (map fst fl)" "z \<in> set (map fst fl)" "y \<noteq> z"
    then obtain k j where yk: "(y, k) \<in> set fl" and zj: "(z, j) \<in> set fl" by auto
    from arena_disjoint [OF a mem [OF yk] mem [OF zj]] \<open>y \<noteq> z\<close>
      arena_blk(6) [OF a mem [OF yk]] arena_blk(6) [OF a mem [OF zj]]
    show "y + 8 \<le> z \<or> z + 8 \<le> y" by auto
  qed
qed

lemma chain_cong_tags:
  "chain m a bs e \<Longrightarrow>
   (\<forall>(p, n, al) \<in> set bs. m' (p - 4) = m (p - 4) \<and> m' (p + n - 8) = m (p + n - 8)) \<Longrightarrow>
   chain m' a bs e"
  by (induction bs arbitrary: a) auto

lemma arena_cong:
  assumes "arena s bs"
    and "heap_listp s' = heap_listp s" "mem_brk s' = mem_brk s" "mem_max_addr s' = mem_max_addr s"
    and "\<forall>(p, n, al) \<in> set bs. mem s' (p - 4) = mem s (p - 4) \<and> mem s' (p + n - 8) = mem s (p + n - 8)"
    and "mem s' (mem_brk s - 4) = mem s (mem_brk s - 4)"
  shows "arena s' bs"
  using assms chain_cong_tags [of "mem s" "heap_listp s" bs "mem_brk s" "mem s'"]
  unfolding arena_def by simp

text \<open>The link words of a free block are neither a boundary tag nor a payload word of an allocated block.\<close>

lemma cell_not_tag:
  assumes a: "arena s bs" and y: "(y, k, False) \<in> set bs" and p: "(p, n, al) \<in> set bs"
  shows "y \<noteq> p - 4" "y + 4 \<noteq> p - 4" "y \<noteq> p + n - 8" "y + 4 \<noteq> p + n - 8"
    "y \<noteq> mem_brk s - 4" "y + 4 \<noteq> mem_brk s - 4"
proof -
  note fy = arena_blk [OF a y] and fp = arena_blk [OF a p] and k = arena_free_blk [OF a y]
  from arena_disjoint [OF a y p] fy(2,3,6) fp(2,3,6) k
  show "y \<noteq> p - 4" "y + 4 \<noteq> p - 4" "y \<noteq> p + n - 8" "y + 4 \<noteq> p + n - 8"
    "y \<noteq> mem_brk s - 4" "y + 4 \<noteq> mem_brk s - 4"
    by auto
qed

lemma free_extent_not_payload:
  assumes a: "arena s bs" and y: "(y, k, False) \<in> set bs" and q: "(q, j, True) \<in> set bs"
    and x: "q \<le> x" "x + 8 < q + j"
  shows "x + 4 < y \<or> y + k \<le> x + 4"
  using arena_disjoint [OF a y q] arena_blk(2,6) [OF a y] arena_blk(2,6) [OF a q] x
  by auto

lemma kept_refl [simp]: "kept m m A"
  by (simp add: kept_def)

lemma kept_trans: "kept m m' A \<Longrightarrow> kept m' m'' A \<Longrightarrow> kept m m'' A"
  by (fastforce simp add: kept_def)

lemma kept_mono: "kept m m' A \<Longrightarrow> B \<subseteq> A \<Longrightarrow> kept m m' B"
  by (fastforce simp add: kept_def)

lemma cells_frame:
  assumes a: "arena s bs"
    and w: "\<forall>x. (\<forall>y \<in> Z. x \<noteq> y \<and> x \<noteq> y + 4) \<longrightarrow> mem s' x = mem s x"
    and z: "Z \<subseteq> fst ` free_of bs"
    and f: "heap_listp s' = heap_listp s" "mem_brk s' = mem_brk s" "mem_max_addr s' = mem_max_addr s"
  shows "arena s' bs" and "kept (mem s) (mem s') (alloc_of bs)"
proof -
  have fr: "\<And>y. y \<in> Z \<Longrightarrow> \<exists>k. (y, k, False) \<in> set bs"
    using z by (fastforce simp add: free_of_def)
  show "arena s' bs"
  proof (rule arena_cong [OF a f])
    show "\<forall>(p, n, al) \<in> set bs. mem s' (p - 4) = mem s (p - 4) \<and> mem s' (p + n - 8) = mem s (p + n - 8)"
    proof (clarify)
      fix p n al assume p: "(p, n, al) \<in> set bs"
      have "\<forall>y \<in> Z. p - 4 \<noteq> y \<and> p - 4 \<noteq> y + 4 \<and> p + n - 8 \<noteq> y \<and> p + n - 8 \<noteq> y + 4"
      proof
        fix y assume "y \<in> Z"
        then obtain k where "(y, k, False) \<in> set bs" using fr by blast
        from cell_not_tag(1-4) [OF a this p]
        show "p - 4 \<noteq> y \<and> p - 4 \<noteq> y + 4 \<and> p + n - 8 \<noteq> y \<and> p + n - 8 \<noteq> y + 4" by metis
      qed
      with w show "mem s' (p - 4) = mem s (p - 4) \<and> mem s' (p + n - 8) = mem s (p + n - 8)"
        by blast
    qed
    have "\<forall>y \<in> Z. mem_brk s - 4 \<noteq> y \<and> mem_brk s - 4 \<noteq> y + 4"
    proof
      fix y assume "y \<in> Z"
      then obtain k where y: "(y, k, False) \<in> set bs" using fr by blast
      from cell_not_tag(5,6) [OF a y y]
      show "mem_brk s - 4 \<noteq> y \<and> mem_brk s - 4 \<noteq> y + 4" by metis
    qed
    with w show "mem s' (mem_brk s - 4) = mem s (mem_brk s - 4)" by blast
  qed
  show "kept (mem s) (mem s') (alloc_of bs)"
    unfolding kept_def alloc_of_def
  proof (clarify)
    fix q j x assume q: "(q, j, True) \<in> set bs" and x: "q \<le> x" "x + 8 < q + j"
    have "\<forall>y \<in> Z. x \<noteq> y \<and> x \<noteq> y + 4"
    proof
      fix y assume "y \<in> Z"
      then obtain k where y: "(y, k, False) \<in> set bs" using fr by blast
      from free_extent_not_payload [OF a y q x] arena_free_blk [OF a y]
      show "x \<noteq> y \<and> x \<noteq> y + 4" by auto
    qed
    with w show "mem s' x = mem s x" by blast
  qed
qed


section \<open>The index under removal and insertion\<close>

lemma remove_node_state:
  assumes a: "arena s bs" and i: "index s fl" and f: "set fl \<subseteq> free_of bs" and x: "(x, n) \<in> set fl"
  shows "arena (remove_node s x) bs" and "index (remove_node s x) (remove1 (x, n) fl)"
    and "kept (mem s) (mem (remove_node s x)) (alloc_of bs)"
    and "\<forall>a. (\<forall>y \<in> fst ` set fl. a \<noteq> y \<and> a \<noteq> y + 4) \<longrightarrow> mem (remove_node s x) a = mem s a"
proof -
  from x obtain xs ys where fl: "fl = xs @ (x, n) # ys"
    by (auto simp add: in_set_conv_decomp)
  from i have l: "links (mem s) 0 (map fst xs @ x # map fst ys) 0"
    and t: "free_list_tail s = first_or 0 (map fst xs @ x # map fst ys)"
    and so: "sorted (map snd fl)" and d: "distinct (map fst xs @ x # map fst ys)"
    by (simp_all add: index_def fl)
  from arena_nodes(1) [OF a f] have w: "wf_nodes (map fst xs @ x # map fst ys)"
    by (simp add: fl)
  note r = remove_node_links [OF l t w d]
  from d have "(x, n) \<notin> set xs" by force
  then have rm: "remove1 (x, n) fl = xs @ ys"
    by (simp add: fl remove1_append)
  from so have so': "sorted (map snd (xs @ ys))"
    by (auto simp add: fl sorted_append)
  from d have d': "distinct (map fst (xs @ ys))" by auto
  show "index (remove_node s x) (remove1 (x, n) fl)"
    unfolding rm index_def using r(1,2) so' d' by simp
  have w': "\<forall>a. (\<forall>y \<in> set (map fst (xs @ ys)). a \<noteq> y \<and> a \<noteq> y + 4) \<longrightarrow> mem (remove_node s x) a = mem s a"
    using r(3) by simp
  have z: "set (map fst (xs @ ys)) \<subseteq> fst ` free_of bs"
    using f by (auto simp add: fl)
  show "arena (remove_node s x) bs" "kept (mem s) (mem (remove_node s x)) (alloc_of bs)"
    by (rule cells_frame [OF a w' z]; simp)+
  show "\<forall>a. (\<forall>y \<in> fst ` set fl. a \<noteq> y \<and> a \<noteq> y + 4) \<longrightarrow> mem (remove_node s x) a = mem s a"
    using r(3) by (simp add: fl image_Un)
qed

lemma distinct_map_insort_key:
  "distinct (map g (insort_key f x xs)) \<longleftrightarrow> g x \<notin> g ` set xs \<and> distinct (map g xs)"
  by (induction xs) (auto simp add: set_insort_key)

lemma remove_node_tail [simp]:
  "free_list_tail (s\<lparr>mem := m\<rparr>) = free_list_tail s"
  by simp

lemma insert_node_state:
  assumes a: "arena s bs" and i: "index s fl" and f: "set fl \<subseteq> free_of bs"
    and x: "(x, n, False) \<in> set bs" and nx: "x \<notin> fst ` set fl"
  shows "\<exists>s'. insert_node s x (of_nat n) = Some s' \<and> arena s' bs \<and>
     index s' (insort_key snd (x, n) fl) \<and> kept (mem s) (mem s') (alloc_of bs) \<and>
     (\<forall>a. (\<forall>y \<in> insert x (fst ` set fl). a \<noteq> y \<and> a \<noteq> y + 4) \<longrightarrow> mem s' a = mem s a) \<and>
     mem_brk s' = mem_brk s \<and> mem_max_addr s' = mem_max_addr s \<and> heap_listp s' = heap_listp s"
proof -
  from i have l: "links (mem s) 0 (map fst fl) 0" and t: "free_list_tail s = first_or 0 (map fst fl)"
    and so: "sorted (map snd fl)" and d: "distinct (map fst fl)"
    by (simp_all add: index_def)
  have f': "set ((x, n) # fl) \<subseteq> free_of bs"
    using f x by (simp add: free_of_def)
  from arena_nodes(1) [OF a f'] have w: "wf_nodes (x # map fst fl)" by simp
  from d nx have d': "distinct (x # map fst fl)" by simp
  note h = arena_nodes(2) [OF a f]
  have n: "n < 2 ^ 64" using arena_blk(4) [OF a x] by simp
  from insert_node_links [OF l t w d' h n] obtain s' where
    s': "insert_node s x (of_nat n) = Some s'"
    and l': "links (mem s') 0 (map fst (insort_key snd (x, n) fl)) 0"
    and t': "free_list_tail s' = first_or 0 (map fst (insort_key snd (x, n) fl))"
    and w': "\<forall>a. (\<forall>y \<in> set (x # map fst fl). a \<noteq> y \<and> a \<noteq> y + 4) \<longrightarrow> mem s' a = mem s a"
    and fs: "mem_brk s' = mem_brk s" "mem_max_addr s' = mem_max_addr s" "heap_listp s' = heap_listp s"
    by blast
  have "sorted (map snd (insort_key snd (x, n) fl))"
    using so by (simp add: sorted_insort_key)
  moreover have "distinct (map fst (insort_key snd (x, n) fl))"
    using d' by (simp add: distinct_map_insort_key)
  ultimately have i': "index s' (insort_key snd (x, n) fl)"
    using l' t' by (simp add: index_def)
  have z: "set (x # map fst fl) \<subseteq> fst ` free_of bs"
    using f' by force
  from cells_frame [OF a w' z fs(3,1,2)] s' i' w' fs show ?thesis
    by auto
qed


lemma free_of_append [simp]: "free_of (xs @ ys) = free_of xs \<union> free_of ys"
  by (auto simp add: free_of_def)

lemma alloc_of_append [simp]: "alloc_of (xs @ ys) = alloc_of xs \<union> alloc_of ys"
  by (auto simp add: alloc_of_def)

lemma free_of_Cons [simp]:
  "free_of ((p, n, al) # bs) = (if al then free_of bs else insert (p, n) (free_of bs))"
  by (auto simp add: free_of_def)

lemma alloc_of_Cons [simp]:
  "alloc_of ((p, n, al) # bs) = (if al then insert (p, n) (alloc_of bs) else alloc_of bs)"
  by (auto simp add: alloc_of_def)

lemma free_of_Nil [simp]: "free_of [] = {}"
  by (simp add: free_of_def)

lemma alloc_of_Nil [simp]: "alloc_of [] = {}"
  by (simp add: alloc_of_def)


section \<open>Rewriting the boundary tags of a stretch of blocks\<close>

lemma rewrite_state:
  assumes a: "arena s (pre @ mid @ post)" and i: "index s fl" and f: "set fl \<subseteq> free_of (pre @ post)"
    and pre: "pre \<noteq> []" "chain (mem s) (heap_listp s) pre c"
    and post: "chain (mem s) d post (mem_brk s)"
    and mid': "chain m' c mid' d" "\<forall>(p, n, al) \<in> set mid'. 16 \<le> n"
    and fr: "\<forall>x. x + 8 \<le> c \<or> d \<le> x + 4 \<longrightarrow> m' x = mem s x"
  shows "arena (s\<lparr>mem := m'\<rparr>) (pre @ mid' @ post)" and "index (s\<lparr>mem := m'\<rparr>) fl"
    and "kept (mem s) m' (alloc_of (pre @ post))"
proof -
  let ?bs = "pre @ mid @ post"
  from a have h: "4 \<le> heap_listp s" and b: "mem_brk s \<le> 2 ^ 32"
    and hd: "hd ?bs = (heap_listp s, 8, True)" and tl: "\<forall>(p, n, al) \<in> set (tl ?bs). 16 \<le> n"
    and ep: "mem s (mem_brk s - 4) = tag 0 True"
    by (simp_all add: arena_def)
  have cd: "heap_listp s \<le> c" "d \<le> mem_brk s" "c \<le> d"
    using chain_le [OF pre(2)] chain_le [OF post] chain_le [OF mid'(1)] by simp_all
  have inpre: "\<And>p n al. (p, n, al) \<in> set pre \<Longrightarrow> p + n \<le> c \<and> 8 \<le> n \<and> 4 \<le> p"
    using chain_mem [OF pre(2)] h by fastforce
  have inpost: "\<And>p n al. (p, n, al) \<in> set post \<Longrightarrow> d \<le> p"
    using chain_mem [OF post] by fastforce
  have c': "chain m' (heap_listp s) (pre @ mid' @ post) (mem_brk s)"
    by (rule chain_rebuild [OF pre(2) post mid'(1)]) (use fr in auto)
  have tl': "\<forall>(p, n, al) \<in> set (tl (pre @ mid' @ post)). 16 \<le> n"
    using tl mid'(2) pre(1) by (cases pre) force+
  have ep': "m' (mem_brk s - 4) = tag 0 True"
  proof -
    have "d \<le> mem_brk s - 4 + 4" using cd by simp
    with fr have "m' (mem_brk s - 4) = mem s (mem_brk s - 4)" by blast
    with ep show ?thesis by simp
  qed
  show "arena (s\<lparr>mem := m'\<rparr>) (pre @ mid' @ post)"
    using h b hd pre(1) c' tl' ep' by (simp add: arena_def)
  have nodes: "\<And>y k. (y, k) \<in> set fl \<Longrightarrow> y + 12 \<le> c \<or> d \<le> y"
  proof -
    fix y k assume "(y, k) \<in> set fl"
    with f have "(y, k, False) \<in> set pre \<or> (y, k, False) \<in> set post"
      by (auto simp add: free_of_def)
    then show "y + 12 \<le> c \<or> d \<le> y"
    proof
      assume y: "(y, k, False) \<in> set pre"
      then have "(y, k, False) \<in> set ?bs" by simp
      from arena_free_blk [OF a this] inpre [OF y] show ?thesis by simp
    next
      assume "(y, k, False) \<in> set post"
      from inpost [OF this] show ?thesis by simp
    qed
  qed
  from i have l: "links (mem s) 0 (map fst fl) 0" by (simp add: index_def)
  have "links m' 0 (map fst fl) 0"
  proof (rule links_cong [OF l])
    fix y assume "y \<in> set (map fst fl)"
    then obtain k where "(y, k) \<in> set fl" by auto
    from nodes [OF this] have "y + 8 \<le> c \<or> d \<le> y + 4" "y + 4 + 8 \<le> c \<or> d \<le> y + 4 + 4"
      by auto
    with fr show "m' y = mem s y \<and> m' (y + 4) = mem s (y + 4)"
      by blast
  qed
  with i show "index (s\<lparr>mem := m'\<rparr>) fl" by (simp add: index_def)
  show "kept (mem s) m' (alloc_of (pre @ post))"
    unfolding kept_def
  proof (clarify)
    fix q k x assume q: "(q, k) \<in> alloc_of (pre @ post)" and x: "q \<le> x" "x + 8 < q + k"
    from q have "(q, k, True) \<in> set pre \<or> (q, k, True) \<in> set post"
      by (auto simp add: alloc_of_def)
    then have "x + 8 \<le> c \<or> d \<le> x + 4"
    proof
      assume "(q, k, True) \<in> set pre"
      from inpre [OF this] x show ?thesis by simp
    next
      assume "(q, k, True) \<in> set post"
      from inpost [OF this] x show ?thesis by simp
    qed
    with fr show "m' x = mem s x" by blast
  qed
qed



section \<open>Reading boundary tags\<close>

lemma hdr_reads:
  assumes "m (p - 4) = tag n al" and "8 dvd n" and "n < 2 ^ 32"
  shows "GET_SIZE m (HDRP p) = of_nat n" and "unat (GET_SIZE m (HDRP p)) = n"
    and "(ucast (GET_SIZE m (HDRP p)) :: size_t) = of_nat n"
    and "GET_ISALLOCATED m (HDRP p) = of_bool al"
    and "FTRP m p = p + n - 8" and "NEXT_BLKP m p = p + n"
proof -
  show 1: "GET_SIZE m (HDRP p) = of_nat n"
    unfolding HDRP_def by (rule GET_SIZE_tag [of m "p - 4", OF assms(1,2)])
  show 2: "unat (GET_SIZE m (HDRP p)) = n"
    using assms(3) by (simp add: 1 unat_of_nat_32)
  show "(ucast (GET_SIZE m (HDRP p)) :: size_t) = of_nat n"
    using assms(3) by (simp add: 1 ucast_of_nat_up)
  show "GET_ISALLOCATED m (HDRP p) = of_bool al"
    unfolding HDRP_def by (rule GET_ISALLOCATED_tag [of m "p - 4", OF assms(1,2)])
  show "FTRP m p = p + n - 8"
    by (simp add: FTRP_def 2)
  show "NEXT_BLKP m p = p + n"
    using 2 by (simp add: NEXT_BLKP_def HDRP_def)
qed

lemma ftr_reads:
  assumes "m (p - 8) = tag j al" and "8 dvd j" and "j < 2 ^ 32"
  shows "PREV_BLKP m p = p - j"
  using assms by (simp add: PREV_BLKP_def GET_SIZE_tag [of m "p - 8", OF assms(1,2)] unat_of_nat_32)

lemma arena_reads:
  assumes "arena s bs" and "(p, n, al) \<in> set bs"
  shows "GET_SIZE (mem s) (HDRP p) = of_nat n" and "unat (GET_SIZE (mem s) (HDRP p)) = n"
    and "(ucast (GET_SIZE (mem s) (HDRP p)) :: size_t) = of_nat n"
    and "GET_ISALLOCATED (mem s) (HDRP p) = of_bool al"
    and "FTRP (mem s) p = p + n - 8" and "NEXT_BLKP (mem s) p = p + n"
proof -
  note b = arena_blk [OF assms]
  from b(2,4) have "n < 2 ^ 32" by simp
  from hdr_reads [of "mem s" p, OF b(7,5) this]
  show "GET_SIZE (mem s) (HDRP p) = of_nat n" and "unat (GET_SIZE (mem s) (HDRP p)) = n"
    and "(ucast (GET_SIZE (mem s) (HDRP p)) :: size_t) = of_nat n"
    and "GET_ISALLOCATED (mem s) (HDRP p) = of_bool al"
    and "FTRP (mem s) p = p + n - 8" and "NEXT_BLKP (mem s) p = p + n"
    by blast+
qed

lemma arena_decomp:
  assumes "arena s (pre @ (p, n, al) # post)"
  shows "chain (mem s) (heap_listp s) pre p" and "chain (mem s) (p + n) post (mem_brk s)"
  using assms by (auto simp add: arena_def chain_append)

lemma arena_pre_nonempty:
  assumes "arena s (pre @ (p, n, False) # post)"
  shows "pre \<noteq> []"
  using assms by (auto simp add: arena_def)

text \<open>The block before a block that is not the first one, read from its footer.\<close>

lemma arena_prev_reads:
  assumes a: "arena s (pre @ (r, j, al) # (p, n, al') # post)"
  shows "PREV_BLKP (mem s) p = r" and "r + j = p"
proof -
  have r: "(r, j, al) \<in> set (pre @ (r, j, al) # (p, n, al') # post)" by simp
  note b = arena_blk [OF a r]
  from arena_decomp(2) [OF a] have p: "p = r + j" by simp
  then show "r + j = p" by simp
  from b(2,4) have j: "j < 2 ^ 32" by simp
  have "mem s (p - 8) = tag j al" using b(8) p by simp
  from ftr_reads [of "mem s" p, OF this b(5) j] p show "PREV_BLKP (mem s) p = r" by simp
qed

text \<open>The header after the last block is the epilogue.\<close>

lemma arena_next_reads:
  assumes a: "arena s (pre @ [(p, n, al)])"
  shows "GET_ISALLOCATED (mem s) (HDRP (p + n)) = 1" and "p + n = mem_brk s"
proof -
  from arena_decomp(2) [OF a] show e: "p + n = mem_brk s" by simp
  from a have "mem s (mem_brk s - 4) = tag 0 True" by (simp add: arena_def)
  then show "GET_ISALLOCATED (mem s) (HDRP (p + n)) = 1"
    unfolding e HDRP_def using GET_ISALLOCATED_tag [of "mem s" "mem_brk s - 4" 0 True] by simp
qed


section \<open>Merging two free neighbours\<close>

lemma index_distinct: "index s fl \<Longrightarrow> distinct fl"
  by (simp add: index_def distinct_map)

lemma arena_distinct: "arena s bs \<Longrightarrow> distinct (map fst bs)"
  by (auto simp add: arena_def dest: chain_distinct)

lemma merge_free_blocks:
  assumes a: "arena s bs" and i: "index s fl"
    and bs: "bs = pre @ (a1, n1, False) # (a2, n2, False) # post"
    and f: "set fl = free_of bs - {(pa, pn)}"
    and c: "(xa, xn) = (a1, n1) \<and> (pa, pn) = (a2, n2) \<or> (xa, xn) = (a2, n2) \<and> (pa, pn) = (a1, n1)"
  defines "sr \<equiv> remove_node s xa"
  defines "m' \<equiv> (mem sr)(a1 - 4 := tag (n1 + n2) False, a1 + (n1 + n2) - 8 := tag (n1 + n2) False)"
  shows "arena (sr\<lparr>mem := m'\<rparr>) (pre @ (a1, n1 + n2, False) # post)"
    and "index (sr\<lparr>mem := m'\<rparr>) (remove1 (xa, xn) fl)"
    and "set (remove1 (xa, xn) fl) = free_of (pre @ (a1, n1 + n2, False) # post) - {(a1, n1 + n2)}"
    and "kept (mem s) m' (alloc_of bs)"
proof -
  have in1: "(a1, n1, False) \<in> set bs" and in2: "(a2, n2, False) \<in> set bs"
    by (simp_all add: bs)
  note b1 = arena_blk [OF a in1] and b2 = arena_blk [OF a in2]
  from a have a2: "a2 = a1 + n1"
    by (auto simp add: arena_def bs chain_append)
  have ne: "a1 \<noteq> a2" using a2 b1(6) by simp
  from arena_distinct [OF a] have nin: "a1 \<notin> fst ` set pre" "a1 \<notin> fst ` set post"
    "a2 \<notin> fst ` set pre" "a2 \<notin> fst ` set post"
    by (auto simp add: bs)
  have fo: "free_of bs - {(a1, n1), (a2, n2)} = free_of (pre @ post)"
    using nin by (auto simp add: bs free_of_def) (metis fst_conv image_eqI)+
  from c f in1 in2 ne have x: "(xa, xn) \<in> set fl"
    by (auto simp add: free_of_def)
  from f have fs: "set fl \<subseteq> free_of bs" by auto
  note r = remove_node_state [OF a i fs x, folded sr_def]
  have "set (remove1 (xa, xn) fl) = set fl - {(xa, xn)}"
    by (rule set_remove1_eq [OF index_distinct [OF i]])
  also have "\<dots> = free_of bs - {(a1, n1), (a2, n2)}"
    using c f by auto
  finally have s1: "set (remove1 (xa, xn) fl) = free_of (pre @ post)"
    by (simp only: fo)
  then show "set (remove1 (xa, xn) fl) = free_of (pre @ (a1, n1 + n2, False) # post) - {(a1, n1 + n2)}"
    using nin by (auto simp add: free_of_def) (metis fst_conv image_eqI)+
  have a': "arena sr (pre @ [(a1, n1, False), (a2, n2, False)] @ post)"
    using r(1) by (simp add: bs)
  have pre: "pre \<noteq> []" using a arena_pre_nonempty bs by blast
  have cp: "chain (mem sr) (heap_listp sr) pre a1"
    using arena_decomp(1) [of sr pre a1 n1 False "(a2, n2, False) # post"] r(1) by (simp add: bs)
  have cq: "chain (mem sr) (a1 + (n1 + n2)) post (mem_brk sr)"
    using arena_decomp(2) [of sr "pre @ [(a1, n1, False)]" a2 n2 False post] r(1)
    by (simp add: bs a2 add.assoc)
  have cm: "chain m' a1 [(a1, n1 + n2, False)] (a1 + (n1 + n2))"
    using b1(5,6) b2(5,6) by (simp add: m'_def)
  have fr: "\<forall>x. x + 8 \<le> a1 \<or> a1 + (n1 + n2) \<le> x + 4 \<longrightarrow> m' x = mem sr x"
    using b1(2,6) by (auto simp add: m'_def)
  have sz: "\<forall>(p, n, al) \<in> set [(a1, n1 + n2, False)]. 16 \<le> n"
    using b1(6) b2(6) by simp
  have "s1'": "set (remove1 (xa, xn) fl) \<subseteq> free_of (pre @ post)" using s1 by simp
  note w = rewrite_state [OF a' r(2) "s1'" pre cp cq cm sz fr]
  from w(1) show "arena (sr\<lparr>mem := m'\<rparr>) (pre @ (a1, n1 + n2, False) # post)" by simp
  from w(2) show "index (sr\<lparr>mem := m'\<rparr>) (remove1 (xa, xn) fl)" .
  have "alloc_of bs = alloc_of (pre @ post)" by (simp add: bs)
  with w(3) r(3) show "kept (mem s) m' (alloc_of bs)"
    by (metis kept_trans)
qed


section \<open>Coalescing\<close>

lemma PUT_W_free_sum:
  "PUT_W m a (PACK (of_nat n + of_nat k) 0) = m(a := tag (n + k) False)"
  using PUT_W_free [of m a "n + k"] by simp

lemma no_adjacent_free_append:
  "no_adjacent_free (xs @ ys) \<longleftrightarrow>
     no_adjacent_free xs \<and> no_adjacent_free ys \<and>
     (xs = [] \<or> ys = [] \<or> snd (snd (last xs)) \<or> snd (snd (hd ys)))"
  by (simp add: no_adjacent_free_def successively_append_iff)

lemma no_adjacent_free_Cons:
  "no_adjacent_free (x # xs) \<longleftrightarrow> (xs = [] \<or> snd (snd x) \<or> snd (snd (hd xs))) \<and> no_adjacent_free xs"
  by (cases xs) (auto simp add: no_adjacent_free_def)

lemma no_adjacent_free_Nil [simp]: "no_adjacent_free []"
  by (simp add: no_adjacent_free_def)

lemma coalesce_next:
  assumes a: "arena s bs" and i: "index s fl" and bs: "bs = pre @ (p, n, False) # post"
    and f: "set fl = free_of bs - {(p, n)}" and naf: "no_adjacent_free post"
  shows "\<exists>s1 n1 post1 fl1.
     (if GET_ISALLOCATED (mem s) (HDRP (NEXT_BLKP (mem s) p)) = 0 then
        (let size_after_coalesce = (ucast (GET_SIZE (mem s) (HDRP p)) :: size_t)
                 + ucast (GET_SIZE (mem s) (HDRP (NEXT_BLKP (mem s) p)));
             sr = remove_node s (NEXT_BLKP (mem s) p);
             m1 = PUT_W (mem sr) (HDRP p) (PACK size_after_coalesce 0);
             m2 = PUT_W m1 (FTRP m1 p) (PACK size_after_coalesce 0)
         in (sr\<lparr>mem := m2\<rparr>, size_after_coalesce))
      else (s, ucast (GET_SIZE (mem s) (HDRP p)))) = (s1, of_nat n1) \<and>
     arena s1 (pre @ (p, n1, False) # post1) \<and> index s1 fl1 \<and>
     set fl1 = free_of (pre @ (p, n1, False) # post1) - {(p, n1)} \<and>
     no_adjacent_free post1 \<and> (post1 = [] \<or> snd (snd (hd post1))) \<and>
     alloc_of post1 = alloc_of post \<and> kept (mem s) (mem s1) (alloc_of bs) \<and> n \<le> n1 \<and>
     mem_brk s1 = mem_brk s \<and> mem_max_addr s1 = mem_max_addr s \<and> heap_listp s1 = heap_listp s"
proof -
  have inp: "(p, n, False) \<in> set bs" by (simp add: bs)
  note rp = arena_reads [OF a inp]
  show ?thesis
  proof (cases "post = [] \<or> snd (snd (hd post))")
    case True
    have "GET_ISALLOCATED (mem s) (HDRP (p + n)) = 1"
    proof (cases post)
      case Nil
      with a show ?thesis by (simp add: bs arena_next_reads(1))
    next
      case (Cons b post')
      obtain q k al where b: "b = (q, k, al)" by (cases b)
      with True Cons have al: "al" by simp
      have q: "q = p + n" using arena_decomp(2) [OF a [unfolded bs]] by (simp add: Cons b)
      have "(q, k, al) \<in> set bs" by (simp add: bs Cons b)
      from arena_reads(4) [OF a this] al q show ?thesis by simp
    qed
    then have na: "GET_ISALLOCATED (mem s) (HDRP (NEXT_BLKP (mem s) p)) \<noteq> 0"
      by (simp add: rp(6))
    show ?thesis
      apply (rule exI [of _ s], rule exI [of _ n], rule exI [of _ post], rule exI [of _ fl])
      using a [unfolded bs] i f [unfolded bs] naf True na by (simp add: rp(3,6))
  next
    case False
    then obtain q k post' where post: "post = (q, k, False) # post'"
      by (cases post) auto
    have q: "q = p + n" using arena_decomp(2) [OF a [unfolded bs]] by (simp add: post)
    have inq: "(q, k, False) \<in> set bs" by (simp add: bs post)
    note rq = arena_reads [OF a inq, unfolded q]
    note bq = arena_blk [OF a inq] and bp = arena_blk [OF a inp]
    have lt: "n + k < 2 ^ 32" using bq(4) bp(2) q by simp
    define sr where "sr = remove_node s q"
    define m' where "m' = (mem sr)(p - 4 := tag (n + k) False, p + (n + k) - 8 := tag (n + k) False)"
    have bs': "bs = pre @ (p, n, False) # (q, k, False) # post'" by (simp add: bs post)
    note mg = merge_free_blocks [OF a i bs' f, of q k, simplified, folded sr_def, folded m'_def]
    have ft: "FTRP ((mem sr)(p - 4 := tag (n + k) False)) p = p + (n + k) - 8"
      by (rule hdr_reads(5) [where al = False]) (use bp(5) bq(5) lt in simp_all)
    have e: "(let size_after_coalesce = (ucast (GET_SIZE (mem s) (HDRP p)) :: size_t)
                 + ucast (GET_SIZE (mem s) (HDRP (NEXT_BLKP (mem s) p)));
             sr = remove_node s (NEXT_BLKP (mem s) p);
             m1 = PUT_W (mem sr) (HDRP p) (PACK size_after_coalesce 0);
             m2 = PUT_W m1 (FTRP m1 p) (PACK size_after_coalesce 0)
         in (sr\<lparr>mem := m2\<rparr>, size_after_coalesce)) = (sr\<lparr>mem := m'\<rparr>, of_nat (n + k))"
      by (simp add: Let_def rp(3,6) [unfolded HDRP_def] rq(3) [unfolded HDRP_def] PUT_W_free_sum ft m'_def sr_def [unfolded q, symmetric] HDRP_def)
    have nf: "GET_ISALLOCATED (mem s) (HDRP (NEXT_BLKP (mem s) p)) = 0"
      by (simp add: rp(6) rq(4))
    from naf have naf': "no_adjacent_free post'" and h': "post' = [] \<or> snd (snd (hd post'))"
      by (simp_all add: post no_adjacent_free_Cons)
    have al: "alloc_of post' = alloc_of post" by (simp add: post)
    show ?thesis
      apply (rule exI [of _ "sr\<lparr>mem := m'\<rparr>"], rule exI [of _ "n + k"], rule exI [of _ post'],
          rule exI [of _ "remove1 (q, k) fl"])
      using mg naf' h' al nf e by (simp add: sr_def)
  qed
qed

lemma coalesce_prev:
  assumes a: "arena s1 bs1" and i: "index s1 fl1"
    and bs: "bs1 = pre' @ (r, j, alr) # (p, n1, False) # post1"
    and f: "set fl1 = free_of bs1 - {(p, n1)}" and naf: "no_adjacent_free (pre' @ [(r, j, alr)])"
    and r0: "PREV_BLKP m0 p = r" and r1: "GET_ISALLOCATED m0 (HDRP r) = of_bool alr"
  shows "\<exists>s2 p2 n2 pre2 fl2.
     (if GET_ISALLOCATED m0 (HDRP (PREV_BLKP m0 p)) = 0 then
        (let size_after_coalesce = (of_nat n1 :: size_t)
                 + ucast (GET_SIZE (mem s1) (HDRP (PREV_BLKP m0 p)));
             sr = remove_node s1 (PREV_BLKP m0 p);
             m1 = PUT_W (mem sr) (HDRP (PREV_BLKP m0 p)) (PACK size_after_coalesce 0);
             m2 = PUT_W m1 (FTRP m1 p) (PACK size_after_coalesce 0)
         in (sr\<lparr>mem := m2\<rparr>, PREV_BLKP m0 p))
      else (s1, p)) = (s2, p2) \<and>
     arena s2 (pre2 @ (p2, n2, False) # post1) \<and> index s2 fl2 \<and>
     set fl2 = free_of (pre2 @ (p2, n2, False) # post1) - {(p2, n2)} \<and>
     no_adjacent_free pre2 \<and> (pre2 = [] \<or> snd (snd (last pre2))) \<and>
     alloc_of pre2 = alloc_of (pre' @ [(r, j, alr)]) \<and> kept (mem s1) (mem s2) (alloc_of bs1) \<and>
     n1 \<le> n2 \<and> p2 \<le> p \<and> p2 + n2 = p + n1 \<and> 0 < p2 \<and>
     mem_brk s2 = mem_brk s1 \<and> mem_max_addr s2 = mem_max_addr s1 \<and> heap_listp s2 = heap_listp s1"
proof -
  have inp: "(p, n1, False) \<in> set bs1" and inr: "(r, j, alr) \<in> set bs1"
    by (simp_all add: bs)
  note bp = arena_blk [OF a inp] and br = arena_blk [OF a inr]
  have rj: "r + j = p"
    using arena_prev_reads(2) [OF a [unfolded bs]] .
  show ?thesis
  proof (cases alr)
    case True
    then have na: "GET_ISALLOCATED m0 (HDRP (PREV_BLKP m0 p)) \<noteq> 0"
      by (simp add: r0 r1)
    have bs': "bs1 = (pre' @ [(r, j, alr)]) @ (p, n1, False) # post1" by (simp add: bs)
    show ?thesis
      apply (rule exI [of _ s1], rule exI [of _ p], rule exI [of _ n1],
          rule exI [of _ "pre' @ [(r, j, alr)]"], rule exI [of _ fl1])
      using a [unfolded bs'] i f [unfolded bs'] naf True na bp(2) by simp
  next
    case False
    define sr where "sr = remove_node s1 r"
    define m' where "m' = (mem sr)(r - 4 := tag (j + n1) False, r + (j + n1) - 8 := tag (j + n1) False)"
    have bs': "bs1 = pre' @ (r, j, False) # (p, n1, False) # post1"
      using False by (simp add: bs)
    note mg = merge_free_blocks [OF a i bs' f, of r j, simplified, folded sr_def, folded m'_def]
    have rin: "(r, j) \<in> set fl1"
      using f rj br(6) by (auto simp add: bs' free_of_def)
    from f have fs: "set fl1 \<subseteq> free_of bs1" by auto
    note rm = remove_node_state [OF a i fs rin, folded sr_def]
    note rr = arena_reads [OF a inr]
    have lt: "j + n1 < 2 ^ 32" using bp(4) br(2) rj by simp
    have ne: "p - 4 \<noteq> r - 4" using rj br(6) by arith
    have hp: "((mem sr)(r - 4 := tag (n1 + j) False)) (p - 4) = tag n1 False"
      using arena_blk(7) [OF rm(1) inp] ne by simp
    have ft: "FTRP ((mem sr)(r - 4 := tag (n1 + j) False)) p = p + n1 - 8"
      by (rule hdr_reads(5) [of "(mem sr)(r - 4 := tag (n1 + j) False)" p, OF hp])
        (use bp(5) bp(2,4) in simp_all)
    have e: "(let size_after_coalesce = (of_nat n1 :: size_t)
                 + ucast (GET_SIZE (mem s1) (HDRP (PREV_BLKP m0 p)));
             sr = remove_node s1 (PREV_BLKP m0 p);
             m1 = PUT_W (mem sr) (HDRP (PREV_BLKP m0 p)) (PACK size_after_coalesce 0);
             m2 = PUT_W m1 (FTRP m1 p) (PACK size_after_coalesce 0)
         in (sr\<lparr>mem := m2\<rparr>, PREV_BLKP m0 p)) = (sr\<lparr>mem := m'\<rparr>, r)"
      using rj by (simp add: Let_def r0 rr(3) [unfolded HDRP_def] PUT_W_free_sum ft m'_def
          sr_def [symmetric] HDRP_def add.commute [of j n1]) (simp add: add.commute add.left_commute flip: rj)
    have nf: "GET_ISALLOCATED m0 (HDRP (PREV_BLKP m0 p)) = 0"
      using False by (simp add: r0 r1)
    from naf have naf': "no_adjacent_free pre'" and h': "pre' = [] \<or> snd (snd (last pre'))"
      using False by (simp_all add: no_adjacent_free_append)
    from False have al: "alloc_of pre' = alloc_of (pre' @ [(r, j, alr)])" by simp
    show ?thesis
      apply (rule exI [of _ "sr\<lparr>mem := m'\<rparr>"], rule exI [of _ r], rule exI [of _ "j + n1"],
          rule exI [of _ pre'], rule exI [of _ "remove1 (r, j) fl1"])
      using mg naf' h' al nf e rj br(2) by (simp add: sr_def)
  qed
qed

text \<open>Coalescing a free block that is not yet in the index re-establishes the invariant.\<close>

lemma coalesce_pending:
  assumes pd: "pending s bs fl p n"
  shows "\<exists>s' p' bs' fl' n'. coalesce s p = Some (s', p') \<and> heap_inv s' bs' fl' \<and>
     (p', n', False) \<in> set bs' \<and> n \<le> n' \<and> p' \<le> p \<and> p + n \<le> p' + n' \<and> 0 < p' \<and>
     alloc_of bs' = alloc_of bs \<and> kept (mem s) (mem s') (alloc_of bs) \<and>
     mem_brk s' = mem_brk s \<and> mem_max_addr s' = mem_max_addr s \<and> heap_listp s' = heap_listp s"
proof -
  from pd obtain pre post where a: "arena s bs" and i: "index s fl"
    and f: "set fl = free_of bs - {(p, n)}" and bs: "bs = pre @ (p, n, False) # post"
    and np: "no_adjacent_free pre" and nq: "no_adjacent_free post"
    by (auto simp add: pending_def)
  from coalesce_next [OF a i bs f nq] obtain s1 n1 post1 fl1 where
    e1: "(if GET_ISALLOCATED (mem s) (HDRP (NEXT_BLKP (mem s) p)) = 0 then
        (let size_after_coalesce = (ucast (GET_SIZE (mem s) (HDRP p)) :: size_t)
                 + ucast (GET_SIZE (mem s) (HDRP (NEXT_BLKP (mem s) p)));
             sr = remove_node s (NEXT_BLKP (mem s) p);
             m1 = PUT_W (mem sr) (HDRP p) (PACK size_after_coalesce 0);
             m2 = PUT_W m1 (FTRP m1 p) (PACK size_after_coalesce 0)
         in (sr\<lparr>mem := m2\<rparr>, size_after_coalesce))
      else (s, ucast (GET_SIZE (mem s) (HDRP p)))) = (s1, of_nat n1)"
    and a1: "arena s1 (pre @ (p, n1, False) # post1)" and i1: "index s1 fl1"
    and f1: "set fl1 = free_of (pre @ (p, n1, False) # post1) - {(p, n1)}"
    and nq1: "no_adjacent_free post1" and h1: "post1 = [] \<or> snd (snd (hd post1))"
    and al1: "alloc_of post1 = alloc_of post" and k1: "kept (mem s) (mem s1) (alloc_of bs)"
    and le1: "n \<le> n1"
    and fd1: "mem_brk s1 = mem_brk s" "mem_max_addr s1 = mem_max_addr s" "heap_listp s1 = heap_listp s"
    by blast
  from arena_pre_nonempty [OF a [unfolded bs]] obtain pre' b where pre: "pre = pre' @ [b]"
    by (cases pre rule: rev_cases) auto
  obtain r j alr where b: "b = (r, j, alr)" by (cases b)
  have a': "arena s (pre' @ (r, j, alr) # (p, n, False) # post)"
    using a by (simp add: bs pre b)
  note r0 = arena_prev_reads(1) [OF a']
  have "(r, j, alr) \<in> set bs" by (simp add: bs pre b)
  note r1 = arena_reads(4) [OF a this]
  have bs1: "pre @ (p, n1, False) # post1 = pre' @ (r, j, alr) # (p, n1, False) # post1"
    by (simp add: pre b)
  from coalesce_prev [OF a1 i1 bs1 f1 np [unfolded pre b] r0 r1]
  obtain s2 p2 n2 pre2 fl2 where
    e2: "(if GET_ISALLOCATED (mem s) (HDRP (PREV_BLKP (mem s) p)) = 0 then
        (let size_after_coalesce = (of_nat n1 :: size_t)
                 + ucast (GET_SIZE (mem s1) (HDRP (PREV_BLKP (mem s) p)));
             sr = remove_node s1 (PREV_BLKP (mem s) p);
             m1 = PUT_W (mem sr) (HDRP (PREV_BLKP (mem s) p)) (PACK size_after_coalesce 0);
             m2 = PUT_W m1 (FTRP m1 p) (PACK size_after_coalesce 0)
         in (sr\<lparr>mem := m2\<rparr>, PREV_BLKP (mem s) p))
      else (s1, p)) = (s2, p2)"
    and a2: "arena s2 (pre2 @ (p2, n2, False) # post1)" and i2: "index s2 fl2"
    and f2: "set fl2 = free_of (pre2 @ (p2, n2, False) # post1) - {(p2, n2)}"
    and np2: "no_adjacent_free pre2" and h2: "pre2 = [] \<or> snd (snd (last pre2))"
    and al2: "alloc_of pre2 = alloc_of (pre' @ [(r, j, alr)])"
    and k2: "kept (mem s1) (mem s2) (alloc_of (pre @ (p, n1, False) # post1))"
    and le2: "n1 \<le> n2" "p2 \<le> p" "p2 + n2 = p + n1" "0 < p2"
    and fd2: "mem_brk s2 = mem_brk s1" "mem_max_addr s2 = mem_max_addr s1" "heap_listp s2 = heap_listp s1"
    by blast
  define bs2 where "bs2 = pre2 @ (p2, n2, False) # post1"
  note a2' = a2 [folded bs2_def] and f2' = f2 [folded bs2_def]
  have x2: "(p2, n2, False) \<in> set bs2" by (simp add: bs2_def)
  have sub: "set fl2 \<subseteq> free_of bs2" using f2' by auto
  have nx: "p2 \<notin> fst ` set fl2"
  proof
    assume "p2 \<in> fst ` set fl2"
    then obtain k where k: "(p2, k) \<in> set fl2" by auto
    with f2' have "(p2, k, False) \<in> set bs2" by (simp add: free_of_def)
    from arena_same_addr [OF a2' this x2] have "k = n2" by simp
    with k f2' show False by simp
  qed
  from insert_node_state [OF a2' i2 sub x2 nx] obtain s3 where
    e3: "insert_node s2 p2 (of_nat n2) = Some s3" and a3: "arena s3 bs2"
    and i3: "index s3 (insort_key snd (p2, n2) fl2)"
    and k3: "kept (mem s2) (mem s3) (alloc_of bs2)"
    and fd3: "mem_brk s3 = mem_brk s2" "mem_max_addr s3 = mem_max_addr s2" "heap_listp s3 = heap_listp s2"
    by blast
  note g = arena_reads(3) [OF a2' x2]
  have c: "coalesce s p = Some (s3, p2)"
    unfolding coalesce_def Let_def e1 [unfolded Let_def] prod.case e2 [unfolded Let_def] g e3
    by simp
  have ao: "alloc_of bs2 = alloc_of bs" "alloc_of (pre @ (p, n1, False) # post1) = alloc_of bs"
    by (simp_all add: bs2_def bs al1 al2 pre b)
  have k: "kept (mem s) (mem s3) (alloc_of bs)"
    using kept_trans [OF kept_trans [OF k1 k2 [unfolded ao]] k3 [unfolded ao]] .
  have naf: "no_adjacent_free bs2"
    using np2 h2 nq1 h1 by (simp add: bs2_def no_adjacent_free_append no_adjacent_free_Cons)
  have s: "set (insort_key snd (p2, n2) fl2) = free_of bs2"
    using f2' x2 by (auto simp add: set_insort_key free_of_def)
  have hi: "heap_inv s3 bs2 (insort_key snd (p2, n2) fl2)"
    using a3 i3 s naf by (simp add: heap_inv_def)
  show ?thesis
    apply (rule exI [of _ s3], rule exI [of _ p2], rule exI [of _ bs2],
        rule exI [of _ "insort_key snd (p2, n2) fl2"], rule exI [of _ n2])
    using c hi x2 le1 le2 ao(1) k fd1 fd2 fd3 by simp
qed


subsection \<open>Releasing a block\<close>

text \<open>Marking an allocated block free leaves it pending; coalescing then restores the invariant.\<close>

lemma mark_free_pending:
  assumes h: "heap_inv s bs fl" and x: "(p, n, True) \<in> set bs" and hp: "p \<noteq> heap_listp s"
  defines "m' \<equiv> (mem s)(p - 4 := tag n False, p + n - 8 := tag n False)"
  shows "\<exists>bs'. pending (s\<lparr>mem := m'\<rparr>) bs' fl p n \<and> alloc_of bs' = alloc_of bs - {(p, n)} \<and>
     kept (mem s) m' (alloc_of bs - {(p, n)})"
proof -
  from h have a: "arena s bs" and i: "index s fl" and f: "set fl = free_of bs"
    and naf: "no_adjacent_free bs"
    by (simp_all add: heap_inv_def)
  from x obtain pre post where bs: "bs = pre @ (p, n, True) # post"
    by (auto simp add: in_set_conv_decomp)
  note b = arena_blk [OF a x]
  from a have hd: "hd bs = (heap_listp s, 8, True)" and tl: "\<forall>(p, n, al) \<in> set (tl bs). 16 \<le> n"
    by (simp_all add: arena_def)
  from hd hp have pre: "pre \<noteq> []" by (cases pre) (auto simp add: bs)
  with tl have n16: "16 \<le> n" by (cases pre) (auto simp add: bs)
  from arena_distinct [OF a] have nin: "p \<notin> fst ` set pre" "p \<notin> fst ` set post"
    by (auto simp add: bs)
  have a': "arena s (pre @ [(p, n, True)] @ post)" using a by (simp add: bs)
  have f': "set fl \<subseteq> free_of (pre @ post)" using f by (simp add: bs)
  note d = arena_decomp [OF a [unfolded bs]]
  have c': "chain m' p [(p, n, False)] (p + n)"
    using b(5,6) by (simp add: m'_def)
  have s16: "\<forall>(p, n, al) \<in> set [(p, n, False)]. 16 \<le> n" using n16 by simp
  have fr: "\<forall>x. x + 8 \<le> p \<or> p + n \<le> x + 4 \<longrightarrow> m' x = mem s x"
    using b(6) by (auto simp add: m'_def)
  note r = rewrite_state [OF a' i f' pre d(1) d(2) c' s16 fr]
  have nf: "(p, n) \<notin> free_of (pre @ post)"
    using nin by (force simp add: free_of_def)
  have na: "(p, n) \<notin> alloc_of (pre @ post)"
    using nin by (force simp add: alloc_of_def)
  have fs: "set fl = free_of (pre @ (p, n, False) # post) - {(p, n)}"
    using f nf by (auto simp add: bs)
  from naf have np: "no_adjacent_free pre" "no_adjacent_free post"
    by (simp_all add: bs no_adjacent_free_append no_adjacent_free_Cons)
  have pd: "pending (s\<lparr>mem := m'\<rparr>) (pre @ (p, n, False) # post) fl p n"
    unfolding pending_def using r(1,2) fs np by auto
  have ao: "alloc_of (pre @ (p, n, False) # post) = alloc_of bs - {(p, n)}"
    using na by (auto simp add: bs)
  have ao': "alloc_of (pre @ post) = alloc_of bs - {(p, n)}"
    using na by (auto simp add: bs)
  from pd ao r(3) [unfolded ao'] show ?thesis by blast
qed

lemma mm_free_state:
  assumes h: "heap_inv s bs fl" and x: "(p, n, True) \<in> set bs" and hp: "p \<noteq> heap_listp s"
  shows "\<exists>s' bs' fl'. mm_free s p = Some s' \<and> heap_inv s' bs' fl' \<and>
     alloc_of bs' = alloc_of bs - {(p, n)} \<and> kept (mem s) (mem s') (alloc_of bs - {(p, n)}) \<and>
     mem_brk s' = mem_brk s \<and> mem_max_addr s' = mem_max_addr s \<and> heap_listp s' = heap_listp s"
proof -
  define m' where "m' = (mem s)(p - 4 := tag n False, p + n - 8 := tag n False)"
  from h have a: "arena s bs" by (simp add: heap_inv_def)
  note r = arena_reads [OF a x]
  from mark_free_pending [OF h x hp, folded m'_def] obtain bs1 where
    pd: "pending (s\<lparr>mem := m'\<rparr>) bs1 fl p n" and ao: "alloc_of bs1 = alloc_of bs - {(p, n)}"
    and k: "kept (mem s) m' (alloc_of bs - {(p, n)})"
    by blast
  from coalesce_pending [OF pd] obtain s' p' bs' fl' where
    c: "coalesce (s\<lparr>mem := m'\<rparr>) p = Some (s', p')" and h': "heap_inv s' bs' fl'"
    and ao': "alloc_of bs' = alloc_of bs1" and k': "kept m' (mem s') (alloc_of bs1)"
    and fd: "mem_brk s' = mem_brk s" "mem_max_addr s' = mem_max_addr s" "heap_listp s' = heap_listp s"
    by auto
  have e: "mm_free s p = Some s'"
    by (simp add: mm_free_def Let_def r(3) [unfolded HDRP_def] r(5) PUT_W_free HDRP_def
        c [unfolded m'_def])
  from kept_trans [OF k k' [unfolded ao]] e h' ao' ao fd show ?thesis by auto
qed

subsection \<open>Placing a request in a free block\<close>

lemma of_nat_diff_size_t: "n \<le> k \<Longrightarrow> (of_nat k :: size_t) - of_nat n = of_nat (k - n)"
  by simp

lemma set_remove1_distinct: "distinct xs \<Longrightarrow> set (remove1 x xs) = set xs - {x}"
  by simp

lemma allocate_state:
  assumes h: "heap_inv s bs fl" and x: "(p, k, False) \<in> set bs"
    and n: "16 \<le> n" "8 dvd n" "n \<le> k"
  shows "\<exists>s' bs' fl' n'. allocate s p (of_nat n) = Some (s', p) \<and> heap_inv s' bs' fl' \<and>
     alloc_of bs' = insert (p, n') (alloc_of bs) \<and> p \<notin> fst ` alloc_of bs \<and> n \<le> n' \<and>
     p \<noteq> heap_listp s \<and> kept (mem s) (mem s') (alloc_of bs) \<and>
     mem_brk s' = mem_brk s \<and> mem_max_addr s' = mem_max_addr s \<and> heap_listp s' = heap_listp s"
proof -
  from h have a: "arena s bs" and i: "index s fl" and f: "set fl = free_of bs"
    and naf: "no_adjacent_free bs"
    by (simp_all add: heap_inv_def)
  from x obtain pre post where bs: "bs = pre @ (p, k, False) # post"
    by (auto simp add: in_set_conv_decomp)
  note b = arena_blk [OF a x]
  from f have fs: "set fl \<subseteq> free_of bs" by simp
  have xin: "(p, k) \<in> set fl" using f x by (simp add: free_of_def)
  define s1 where "s1 = remove_node s p"
  define fl1 where "fl1 = remove1 (p, k) fl"
  note rm = remove_node_state [OF a i fs xin, folded s1_def fl1_def]
  have fld: "mem_brk s1 = mem_brk s" "mem_max_addr s1 = mem_max_addr s" "heap_listp s1 = heap_listp s"
    by (simp_all add: s1_def remove_node_def Let_def)
  note r1 = arena_reads [OF rm(1) x]
  from arena_distinct [OF a] have nin: "p \<notin> fst ` set pre" "p \<notin> fst ` set post"
    by (auto simp add: bs)
  have nf: "(p, k) \<notin> free_of (pre @ post)"
    using nin by (force simp add: free_of_def)
  have na: "p \<notin> fst ` alloc_of bs"
    using nin by (force simp add: alloc_of_def bs)
  have s1f: "set fl1 = free_of (pre @ post)"
    using f nf by (auto simp add: fl1_def set_remove1_distinct [OF index_distinct [OF i]] bs)
  then have f1: "set fl1 \<subseteq> free_of (pre @ post)" by simp
  from arena_pre_nonempty [OF a [unfolded bs]] have pre: "pre \<noteq> []" .
  from a have "hd bs = (heap_listp s, 8, True)" by (simp add: arena_def)
  with pre nin(1) have hp: "p \<noteq> heap_listp s" by (cases pre) (auto simp add: bs)
  have a1: "arena s1 (pre @ [(p, k, False)] @ post)" using rm(1) by (simp add: bs)
  note d = arena_decomp [OF rm(1) [unfolded bs]]
  from naf have np: "no_adjacent_free pre" "no_adjacent_free post"
    "snd (snd (last pre))" "post = [] \<or> snd (snd (hd post))"
    using pre by (simp_all add: bs no_adjacent_free_append no_adjacent_free_Cons)
  have ao: "alloc_of (pre @ post) = alloc_of bs" by (simp add: bs)
  have k64: "k < 2 ^ 64" "n < 2 ^ 64" "k - n < 2 ^ 64" "k < 2 ^ 32" "n < 2 ^ 32"
    using b(2,4) n(3) by simp_all
  have cmp: "(16 :: size_t) \<le> of_nat k - of_nat n \<longleftrightarrow> 16 \<le> k - n"
    using size_t_le [of 16 "k - n"] k64 by (simp add: of_nat_diff_size_t [OF n(3)])
  have cmp': "(16 :: size_t) \<le> of_nat (k - n) \<longleftrightarrow> 16 \<le> k - n"
    using size_t_le [of 16 "k - n"] k64 by simp
  show ?thesis
  proof (cases "16 \<le> k - n")
    case True
    define m4 where "m4 = (mem s1)(p - 4 := tag n True, p + n - 8 := tag n True,
      p + n - 4 := tag (k - n) False, p + k - 8 := tag (k - n) False)"
    have dv: "8 dvd k - n" using b(5) n(2) n(3) by (simp add: dvd_diff_nat)
    have ft1: "FTRP ((mem s1)(p - 4 := tag n True)) p = p + n - 8"
      by (rule hdr_reads(5) [of "(mem s1)(p - 4 := tag n True)" p n True])
        (use n(2) k64 in simp_all)
    have ne: "p + n - 8 \<noteq> p - 4" using n(1) by arith
    have nx: "NEXT_BLKP ((mem s1)(p - 4 := tag n True, p + n - 8 := tag n True)) p = p + n"
      by (rule hdr_reads(6) [of _ p n True]) (use n(2) k64 ne in simp_all)
    have ft2: "FTRP ((mem s1)(p - 4 := tag n True, p + n - 8 := tag n True,
        p + n - 4 := tag (k - n) False)) (p + n) = p + k - 8"
      using hdr_reads(5) [of "(mem s1)(p - 4 := tag n True, p + n - 8 := tag n True,
        p + n - 4 := tag (k - n) False)" "p + n" "k - n" False] dv k64 n(3) by simp
    have c': "chain m4 p [(p, n, True), (p + n, k - n, False)] (p + k)"
      using n True dv b(2) by (auto simp add: m4_def)
    have s16: "\<forall>(p, n, al) \<in> set [(p, n, True), (p + n, k - n, False)]. 16 \<le> n"
      using n(1) True by simp
    have fr: "\<forall>x. x + 8 \<le> p \<or> p + k \<le> x + 4 \<longrightarrow> m4 x = mem s1 x"
      using n True by (auto simp add: m4_def)
    note rw = rewrite_state [OF a1 rm(2) f1 pre d(1) d(2) c' s16 fr]
    define bs' where "bs' = pre @ (p, n, True) # (p + n, k - n, False) # post"
    from rw(1) have a2: "arena (s1\<lparr>mem := m4\<rparr>) bs'" by (simp add: bs'_def)
    have x2: "(p + n, k - n, False) \<in> set bs'" by (simp add: bs'_def)
    have f2: "set fl1 \<subseteq> free_of bs'" using s1f by (auto simp add: bs'_def)
    from arena_distinct [OF a2] have "p + n \<notin> fst ` set (pre @ post)"
      by (auto simp add: bs'_def)
    then have nx2: "p + n \<notin> fst ` set fl1"
      using s1f by (force simp add: free_of_def)
    from insert_node_state [OF a2 rw(2) f2 x2 nx2] obtain s' where
      e: "insert_node (s1\<lparr>mem := m4\<rparr>) (p + n) (of_nat (k - n)) = Some s'"
      and a3: "arena s' bs'" and i3: "index s' (insort_key snd (p + n, k - n) fl1)"
      and k3: "kept m4 (mem s') (alloc_of bs')"
      and fd3: "mem_brk s' = mem_brk s1" "mem_max_addr s' = mem_max_addr s1"
        "heap_listp s' = heap_listp s1"
      by auto
    have al: "allocate s p (of_nat n) = Some (s', p)"
      using True
      by (simp add: allocate_def Let_def s1_def [symmetric] r1(3) cmp cmp' PUT_W_alloc PUT_W_free
          of_nat_diff_size_t [OF n(3)] HDRP_def ft1 nx ft2 m4_def [symmetric] e
          r1(3) [unfolded HDRP_def] del: of_nat_diff)
    have st: "set (insort_key snd (p + n, k - n) fl1) = free_of bs'"
      using s1f by (auto simp add: set_insort_key bs'_def)
    have naf': "no_adjacent_free bs'"
      using np by (simp add: bs'_def no_adjacent_free_append no_adjacent_free_Cons)
    have hi: "heap_inv s' bs' (insort_key snd (p + n, k - n) fl1)"
      using a3 i3 st naf' by (simp add: heap_inv_def)
    have ao': "alloc_of bs' = insert (p, n) (alloc_of bs)"
      by (auto simp add: bs'_def bs)
    have "kept (mem s1) (mem s') (alloc_of bs)"
      by (rule kept_trans [OF rw(3) [unfolded ao] kept_mono [OF k3]]) (auto simp add: ao')
    from kept_trans [OF rm(3) this] have kk: "kept (mem s) (mem s') (alloc_of bs)" .
    show ?thesis
      apply (rule exI [of _ s'], rule exI [of _ bs'],
          rule exI [of _ "insort_key snd (p + n, k - n) fl1"], rule exI [of _ n])
      using al hi ao' na kk fd3 fld hp by simp
  next
    case False
    define m2 where "m2 = (mem s1)(p - 4 := tag k True, p + k - 8 := tag k True)"
    have ft1: "FTRP ((mem s1)(p - 4 := tag k True)) p = p + k - 8"
      by (rule hdr_reads(5) [of "(mem s1)(p - 4 := tag k True)" p k True])
        (use b(5) k64 in simp_all)
    have c': "chain m2 p [(p, k, True)] (p + k)"
      using b(5,6) by (auto simp add: m2_def)
    have s16: "\<forall>(p, n, al) \<in> set [(p, k, True)]. 16 \<le> n"
      using n(1,3) by simp
    have fr: "\<forall>x. x + 8 \<le> p \<or> p + k \<le> x + 4 \<longrightarrow> m2 x = mem s1 x"
      using b(6) by (auto simp add: m2_def)
    note rw = rewrite_state [OF a1 rm(2) f1 pre d(1) d(2) c' s16 fr]
    define bs' where "bs' = pre @ (p, k, True) # post"
    from rw(1) have a2: "arena (s1\<lparr>mem := m2\<rparr>) bs'" by (simp add: bs'_def)
    have al: "allocate s p (of_nat n) = Some (s1\<lparr>mem := m2\<rparr>, p)"
      using False
      by (simp add: allocate_def Let_def s1_def [symmetric] r1(3) cmp cmp' PUT_W_alloc
          HDRP_def ft1 m2_def [symmetric] r1(3) [unfolded HDRP_def])
    have st: "set fl1 = free_of bs'"
      using s1f by (auto simp add: bs'_def)
    have naf': "no_adjacent_free bs'"
      using np by (simp add: bs'_def no_adjacent_free_append no_adjacent_free_Cons)
    have hi: "heap_inv (s1\<lparr>mem := m2\<rparr>) bs' fl1"
      using a2 rw(2) st naf' by (simp add: heap_inv_def)
    have ao': "alloc_of bs' = insert (p, k) (alloc_of bs)"
      by (auto simp add: bs'_def bs)
    from kept_trans [OF rm(3) rw(3) [unfolded ao]] have kk: "kept (mem s) m2 (alloc_of bs)" .
    show ?thesis
      apply (rule exI [of _ "s1\<lparr>mem := m2\<rparr>"], rule exI [of _ bs'],
          rule exI [of _ fl1], rule exI [of _ k])
      using al hi ao' na kk fld hp n(3) by simp
  qed
qed


subsection \<open>Growing the arena\<close>

lemma grow_words:
  assumes "E < 2 ^ 31"
  shows "(scast (int_div (of_nat E :: uint) 4) :: size_t) = of_nat (E div 4)"
proof -
  have u: "unat (of_nat E :: uint) = E" using assms by (simp add: unat_of_nat_32)
  have s: "sint (of_nat E :: uint) = int E"
    using sint_small [of "of_nat E"] assms by (simp only: u)
  have f: "sint (4 :: uint) = 4" by simp
  have d: "int E sdiv 4 = int (E div 4)"
    by (auto simp add: signed_divide_int_def zdiv_int)
  have i: "int_div (of_nat E :: uint) 4 = of_nat (E div 4)"
    unfolding int_div_def s f d by simp
  have "unat (of_nat (E div 4) :: uint) = E div 4"
    using assms by (simp add: unat_of_nat_32)
  from scast_small [OF this] assms show ?thesis by (simp add: i)
qed

lemma extend_size_value:
  assumes "8 dvd E" and "E < 2 ^ 31"
  shows "(scast ((ucast (if (of_nat (E div 4) :: size_t) mod 2 = 0 then of_nat (E div 4)
            else (of_nat (E div 4) :: size_t) + 1) :: uint) * 4) :: size_t) = of_nat E"
proof -
  from assms(1) obtain j where j: "E = 8 * j" by (auto simp add: dvd_def)
  have u: "unat (of_nat (E div 4) :: size_t) = E div 4"
    using assms(2) by (simp add: unat_of_nat_64)
  have "(of_nat (E div 4) :: size_t) mod 2 = of_nat (unat (of_nat (E div 4) :: size_t) mod unat (2 :: size_t))"
    by (rule word_arith_nat_mod)
  also have "\<dots> = 0" unfolding u by (simp add: j)
  finally have ev: "(of_nat (E div 4) :: size_t) mod 2 = 0" .
  have "(of_nat (E div 4) :: uint) * 4 = of_nat (E div 4 * 4)" by simp
  also have "E div 4 * 4 = E" by (simp add: j)
  finally have m: "(of_nat (E div 4) :: uint) * 4 = of_nat E" .
  have "unat (of_nat E :: uint) = E" using assms(2) by (simp add: unat_of_nat_32)
  from scast_small [OF this assms(2)] show ?thesis
    by (simp only: ev simp_thms if_True ucast_of_nat_down m)
qed

lemma extend_heap_state:
  assumes h: "heap_inv s bs fl" and E: "8 dvd E" "16 \<le> E" "E < 2 ^ 31"
    and room: "mem_brk s + E \<le> mem_max_addr s" and mx: "mem_max_addr s \<le> 2 ^ 32"
  shows "\<exists>s' p bs' fl' k. extend_heap s (of_nat (E div 4)) = Some (s', p) \<and> heap_inv s' bs' fl' \<and>
     (p, k, False) \<in> set bs' \<and> E \<le> k \<and> 0 < p \<and> alloc_of bs' = alloc_of bs \<and>
     kept (mem s) (mem s') (alloc_of bs) \<and>
     mem_brk s' = mem_brk s + E \<and> mem_max_addr s' = mem_max_addr s \<and> heap_listp s' = heap_listp s"
proof -
  from h have a: "arena s bs" and i: "index s fl" and f: "set fl = free_of bs"
    and naf: "no_adjacent_free bs"
    by (simp_all add: heap_inv_def)
  define b where "b = mem_brk s"
  define m3 where "m3 = (mem s)(b - 4 := tag E False, b + E - 8 := tag E False, b + E - 4 := tag 0 True)"
  define s1 where "s1 = s\<lparr>mem_brk := b + E, mem := m3\<rparr>"
  define bs1 where "bs1 = bs @ [(b, E, False)]"
  from a have hl: "4 \<le> heap_listp s" and bb: "b \<le> 2 ^ 32"
    and ne: "bs \<noteq> []" and hd: "hd bs = (heap_listp s, 8, True)"
    and tl: "\<forall>(p, n, al) \<in> set (tl bs). 16 \<le> n"
    and ch: "chain (mem s) (heap_listp s) bs b" and ep: "mem s (b - 4) = tag 0 True"
    by (simp_all add: arena_def b_def)
  have inb: "\<And>p n al. (p, n, al) \<in> set bs \<Longrightarrow> 4 \<le> p \<and> p + n \<le> b \<and> 8 \<le> n"
    using arena_blk(2,3,6) [OF a] by (auto simp add: b_def)
  have ch1: "chain m3 (heap_listp s) bs b"
  proof (rule chain_cong_tags [OF ch], clarify)
    fix p n al assume "(p, n, al) \<in> set bs"
    from inb [OF this] E(2)
    have "p - 4 \<noteq> b - 4 \<and> p - 4 \<noteq> b + E - 8 \<and> p - 4 \<noteq> b + E - 4 \<and>
      p + n - 8 \<noteq> b - 4 \<and> p + n - 8 \<noteq> b + E - 8 \<and> p + n - 8 \<noteq> b + E - 4"
      by arith
    then show "m3 (p - 4) = mem s (p - 4) \<and> m3 (p + n - 8) = mem s (p + n - 8)"
      by (simp add: m3_def)
  qed
  have ch2: "chain m3 b [(b, E, False)] (b + E)"
    using E by (auto simp add: m3_def)
  have ar: "arena s1 bs1"
    unfolding arena_def
    using hl mx room ne hd tl E(2) ch1 ch2
    by (cases bs) (auto simp add: s1_def bs1_def chain_append b_def m3_def)
  have li: "links m3 0 (map fst fl) 0"
  proof (rule links_cong)
    show "links (mem s) 0 (map fst fl) 0" using i by (simp add: index_def)
  next
    fix x assume "x \<in> set (map fst fl)"
    then obtain k where "(x, k) \<in> set fl" by auto
    with f have x: "(x, k, False) \<in> set bs" by (simp add: free_of_def)
    from inb [OF x] arena_free_blk [OF a x] E(2)
    have "x \<noteq> b - 4 \<and> x \<noteq> b + E - 8 \<and> x \<noteq> b + E - 4 \<and>
      x + 4 \<noteq> b - 4 \<and> x + 4 \<noteq> b + E - 8 \<and> x + 4 \<noteq> b + E - 4"
      by arith
    then show "m3 x = mem s x \<and> m3 (x + 4) = mem s (x + 4)"
      by (simp add: m3_def)
  qed
  have ix: "index s1 fl"
    using i li by (simp add: index_def s1_def)
  have nb: "(b, E) \<notin> free_of bs"
    using inb by (fastforce simp add: free_of_def)
  have st: "set fl = free_of bs1 - {(b, E)}"
    using f nb by (auto simp add: bs1_def)
  have pd: "pending s1 bs1 fl b E"
    unfolding pending_def using ar ix st naf
    by (auto simp add: bs1_def intro: exI [of _ bs])
  have kp: "kept (mem s) m3 (alloc_of bs)"
    unfolding kept_def
  proof (clarify)
    fix q k x assume "(q, k) \<in> alloc_of bs" and x: "q \<le> x" "x + 8 < q + k"
    then have "(q, k, True) \<in> set bs" by (simp add: alloc_of_def)
    from inb [OF this] x E(2)
    have "x \<noteq> b - 4 \<and> x \<noteq> b + E - 8 \<and> x \<noteq> b + E - 4"
      by arith
    then show "m3 x = mem s x"
      by (simp add: m3_def)
  qed
  from coalesce_pending [OF pd] obtain s' p' bs' fl' n' where
    c: "coalesce s1 b = Some (s', p')" and h': "heap_inv s' bs' fl'"
    and x': "(p', n', False) \<in> set bs'" and le: "E \<le> n'" "0 < p'"
    and ao: "alloc_of bs' = alloc_of bs1" and k': "kept (mem s1) (mem s') (alloc_of bs1)"
    and fd: "mem_brk s' = mem_brk s1" "mem_max_addr s' = mem_max_addr s1" "heap_listp s' = heap_listp s1"
    by blast
  have ao1: "alloc_of bs1 = alloc_of bs" by (simp add: bs1_def)
  have ms: "mem s1 = m3" by (simp add: s1_def)
  have sb: "mem_sbrk s (of_nat E) = (s\<lparr>mem_brk := b + E\<rparr>, b)"
    using room E(3) by (simp add: mem_sbrk_def unat_of_nat_64 b_def)
  have nm: "b \<noteq> MINUS_ONE"
    using bb by (simp add: MINUS_ONE_def)
  have ft1: "FTRP ((mem s)(b - 4 := tag E False)) b = b + E - 8"
    by (rule hdr_reads(5) [of _ b E False]) (use E in simp_all)
  have ne': "b + E - 8 \<noteq> b - 4" using E(2) by arith
  have ft2: "FTRP ((mem s)(b - 4 := tag E False, b + E - 8 := tag E False)) b = b + E - 8"
    by (rule hdr_reads(5) [of _ b E False]) (use E ne' in simp_all)
  have e4: "b + E - 8 + 4 = b + E - 4" using E(2) by arith
  have s1': "s\<lparr>mem_brk := b + E, mem := m3\<rparr> = s1" by (simp add: s1_def)
  have e: "extend_heap s (of_nat (E div 4)) = Some (s', p')"
    unfolding extend_heap_def Let_def extend_size_value [OF E(1,3)] sb prod.case
    using nm by (simp add: PUT_W_free PUT_W_epilogue HDRP_def ft1 ft2 e4 m3_def [symmetric] s1' c)
  from kept_trans [OF kp k' [unfolded ao1 ms]] have kk: "kept (mem s) (mem s') (alloc_of bs)" .
  show ?thesis
    apply (rule exI [of _ s'], rule exI [of _ p'], rule exI [of _ bs'], rule exI [of _ fl'],
        rule exI [of _ n'])
    using e h' x' le ao ao1 kk fd by (simp add: s1_def b_def)
qed

lemma extend_heap_exhausted:
  assumes E: "8 dvd E" "E < 2 ^ 31" and room: "mem_max_addr s < mem_brk s + E"
  shows "extend_heap s (of_nat (E div 4)) = Some (s, NULL)"
proof -
  have sb: "mem_sbrk s (of_nat E) = (s, MINUS_ONE)"
    using room E(2) by (simp add: mem_sbrk_def unat_of_nat_64)
  show ?thesis
    unfolding extend_heap_def Let_def extend_size_value [OF E] sb prod.case by simp
qed


subsection \<open>Acquiring a block\<close>

lemma find_fitting_blk_state:
  assumes h: "heap_inv s bs fl" and mx: "mem_max_addr s \<le> 2 ^ 32"
    and n: "16 \<le> n" "8 dvd n" "n < 2 ^ 31"
  shows "\<exists>s1 p. find_fitting_blk s (of_nat n) = Some (s1, p) \<and>
     mem_max_addr s1 = mem_max_addr s \<and> heap_listp s1 = heap_listp s \<and>
     (p = NULL \<and> s1 = s \<or>
      p \<noteq> NULL \<and> (\<exists>bs1 fl1 k. heap_inv s1 bs1 fl1 \<and> (p, k, False) \<in> set bs1 \<and> n \<le> k \<and>
         alloc_of bs1 = alloc_of bs \<and> kept (mem s) (mem s1) (alloc_of bs)))"
proof -
  from h have a: "arena s bs" and i: "index s fl" and f: "set fl = free_of bs"
    by (simp_all add: heap_inv_def)
  from f have sub: "set fl \<subseteq> free_of bs" by simp
  from i have l: "links (mem s) 0 (map fst fl) 0" and t: "free_list_tail s = first_or 0 (map fst fl)"
    by (simp_all add: index_def)
  note nodes = arena_nodes [OF a sub]
  have w: "\<forall>(y, k) \<in> set fl. 0 < y \<and> y < 2 ^ 32 \<and> 8 dvd k \<and> k < 2 ^ 32 \<and> (\<exists>al. mem s (y - 4) = tag k al)"
    using nodes by (fastforce simp add: wf_nodes_def)
  have n64: "n < 2 ^ 64" using n(3) by simp
  define Y where "Y = dropWhile (\<lambda>y. snd y < n) fl"
  from find_fitting_blk_loop_walk [OF l w n64]
  have r: "find_fitting_blk_loop (mem s) (of_nat n) (free_list_tail s) = Some (first_or 0 (map fst Y))"
    by (simp add: t Y_def)
  show ?thesis
  proof (cases Y)
    case Nil
    define E where "E = max n 4096"
    have E: "8 dvd E" "16 \<le> E" "E < 2 ^ 31"
      using n by (simp_all add: E_def max_def)
    have gt: "(of_nat n :: size_t) > 4096 \<longleftrightarrow> 4096 < n"
      using size_t_less [of 4096 n] n64 by simp
    have ex: "(ucast (if (of_nat n :: size_t) > 4096 then (of_nat n :: size_t) else 4096) :: uint)
        = of_nat E"
      unfolding gt by (simp add: E_def max_def ucast_of_nat_down)
    have ff: "find_fitting_blk s (of_nat n) = extend_heap s (of_nat (E div 4))"
      unfolding find_fitting_blk_def r Let_def ex grow_words [OF E(3)]
      by (simp add: Nil)
    show ?thesis
    proof (cases "mem_brk s + E \<le> mem_max_addr s")
      case True
      from extend_heap_state [OF h E True mx] obtain s' p bs' fl' k where
        e: "extend_heap s (of_nat (E div 4)) = Some (s', p)" and h': "heap_inv s' bs' fl'"
        and x: "(p, k, False) \<in> set bs'" and le: "E \<le> k" "0 < p"
        and ao: "alloc_of bs' = alloc_of bs" and kp: "kept (mem s) (mem s') (alloc_of bs)"
        and fd: "mem_max_addr s' = mem_max_addr s" "heap_listp s' = heap_listp s"
        by blast
      have "n \<le> k" using le(1) by (simp add: E_def)
      with e h' x le(2) ao kp fd show ?thesis
        unfolding ff by blast
    next
      case False
      then have "mem_max_addr s < mem_brk s + E" by simp
      from extend_heap_exhausted [OF E(1,3) this] show ?thesis
        unfolding ff by simp
    qed
  next
    case (Cons z Y')
    obtain p k where z: "z = (p, k)" by (cases z)
    have k: "n \<le> k"
      using hd_dropWhile [of "\<lambda>y. snd y < n" fl] Cons by (simp add: Y_def [symmetric] z)
    have "(p, k) \<in> set Y" by (simp add: Cons z)
    then have "(p, k) \<in> set fl" unfolding Y_def by (rule set_dropWhileD)
    with f have x: "(p, k, False) \<in> set bs" by (simp add: free_of_def)
    from arena_blk(2) [OF a x] have p: "p \<noteq> 0" by simp
    have ff: "find_fitting_blk s (of_nat n) = Some (s, p)"
      using p by (simp add: find_fitting_blk_def r Cons z)
    from h x k p show ?thesis
      unfolding ff by (auto intro!: exI [of _ bs] exI [of _ fl] exI [of _ k])
  qed
qed

lemma mm_malloc_state:
  assumes h: "heap_inv s bs fl" and mx: "mem_max_addr s \<le> 2 ^ 32"
    and sz: "unat sz \<le> 2 ^ 31 - 16"
  shows "\<exists>s' p bs' fl'. mm_malloc s sz = Some (s', p) \<and> heap_inv s' bs' fl' \<and>
     mem_max_addr s' = mem_max_addr s \<and> heap_listp s' = heap_listp s \<and>
     kept (mem s) (mem s') (alloc_of bs) \<and>
     (p = NULL \<and> alloc_of bs' = alloc_of bs \<or>
      p \<noteq> NULL \<and> p \<notin> fst ` alloc_of bs \<and> p \<noteq> heap_listp s \<and>
        (\<exists>n'. alloc_of bs' = insert (p, n') (alloc_of bs) \<and> unat sz + 8 \<le> n'))"
proof (cases "sz = 0")
  case True
  with h show ?thesis
    by (auto simp add: mm_malloc_def intro!: exI [of _ bs] exI [of _ fl])
next
  case False
  then have "unat sz \<noteq> 0" by (simp add: unat_eq_0)
  then have s1: "1 \<le> unat sz" by simp
  define n where "n = (unat sz + 8 + 7) div 8 * 8"
  from adjusted_size_small_request [OF s1 sz]
  have c: "(scast (adjusted_size sz) :: size_t) = of_nat n"
    by (simp add: n_def)
  have n: "16 \<le> n" "8 dvd n" "n < 2 ^ 31" "unat sz + 8 \<le> n"
    using s1 sz by (simp_all add: n_def)
  from find_fitting_blk_state [OF h mx n(1,2,3)] obtain s1 p where
    ff: "find_fitting_blk s (of_nat n) = Some (s1, p)"
    and fd: "mem_max_addr s1 = mem_max_addr s" "heap_listp s1 = heap_listp s"
    and r: "p = NULL \<and> s1 = s \<or>
      p \<noteq> NULL \<and> (\<exists>bs1 fl1 k. heap_inv s1 bs1 fl1 \<and> (p, k, False) \<in> set bs1 \<and> n \<le> k \<and>
         alloc_of bs1 = alloc_of bs \<and> kept (mem s) (mem s1) (alloc_of bs))"
    by blast
  show ?thesis
  proof (cases "p = NULL")
    case True
    with r have "s1 = s" by simp
    with True ff False c h show ?thesis
      by (auto simp add: mm_malloc_def intro!: exI [of _ bs] exI [of _ fl])
  next
    case np: False
    with r obtain bs1 fl1 k where h1: "heap_inv s1 bs1 fl1" and x: "(p, k, False) \<in> set bs1"
      and k: "n \<le> k" and ao: "alloc_of bs1 = alloc_of bs"
      and kp: "kept (mem s) (mem s1) (alloc_of bs)"
      by blast
    from allocate_state [OF h1 x n(1,2) k] obtain s' bs' fl' n' where
      al: "allocate s1 p (of_nat n) = Some (s', p)" and h': "heap_inv s' bs' fl'"
      and ao': "alloc_of bs' = insert (p, n') (alloc_of bs1)" and nin: "p \<notin> fst ` alloc_of bs1"
      and le: "n \<le> n'" and hp: "p \<noteq> heap_listp s1"
      and kp': "kept (mem s1) (mem s') (alloc_of bs1)"
      and fd': "mem_max_addr s' = mem_max_addr s1" "heap_listp s' = heap_listp s1"
      by blast
    have e: "mm_malloc s sz = Some (s', p)"
      using False np by (simp add: mm_malloc_def c ff al)
    from kept_trans [OF kp kp' [unfolded ao]] have kk: "kept (mem s) (mem s') (alloc_of bs)" .
    have "unat sz + 8 \<le> n'" using n(4) le by simp
    with e h' ao' nin hp kk fd fd' np show ?thesis
      unfolding ao by (auto intro!: exI [of _ bs'] exI [of _ fl'])
  qed
qed


subsection \<open>Setting up the heap\<close>

lemma PUT_W_zero: "PUT_W m a 0 = m(a := 0)"
  by (simp add: PUT_W_def)

lemma PUT_W_prologue: "PUT_W m a (PACK DSIZE 1) = m(a := tag 8 True)"
  using PUT_W_alloc [of m a 8] by simp

lemma mm_init_state:
  assumes mx: "mem_max_addr s \<le> 2 ^ 32"
  shows "\<exists>s' r. mm_init s = Some (s', r) \<and> mem_max_addr s' = mem_max_addr s \<and>
     (r = 0 \<longrightarrow> (\<exists>bs fl. heap_inv s' bs fl))"
proof (cases "mem_brk s + 16 \<le> mem_max_addr s")
  case False
  then have sb: "mem_sbrk s 16 = (s, MINUS_ONE)"
    by (simp add: mem_sbrk_def)
  show ?thesis
    by (simp add: mm_init_def sb Let_def)
next
  case True
  define b where "b = mem_brk s"
  define m4 where "m4 = (mem s)(b := 0, b + 4 := tag 8 True, b + 8 := tag 8 True, b + 12 := tag 0 True)"
  define s3 where "s3 = s\<lparr>mem := m4, mem_brk := b + 16, heap_listp := b + 8, free_list_tail := 0\<rparr>"
  have sb: "mem_sbrk s 16 = (s\<lparr>mem_brk := b + 16\<rparr>, b)"
    using True by (simp add: mem_sbrk_def b_def)
  have nm: "b \<noteq> MINUS_ONE"
    using True mx by (simp add: b_def MINUS_ONE_def)
  have gw: "(scast (int_div 4096 4) :: size_t) = 1024"
    using grow_words [of 4096] by simp
  have s3': "s\<lparr>mem_brk := b + 16, mem := m4, heap_listp := b + 8, free_list_tail := 0\<rparr> = s3"
    by (simp add: s3_def)
  have e: "mm_init s = Option.bind (extend_heap s3 1024)
      (\<lambda>(s4, bp). if bp = NULL then Some (s4, - 1) else Some (s4, 0))"
    using nm
    by (simp add: mm_init_def sb Let_def gw PUT_W_zero PUT_W_prologue PUT_W_epilogue
        m4_def [symmetric] s3')
  have ar: "arena s3 [(b + 8, 8, True)]"
    using True mx by (simp add: arena_def s3_def m4_def b_def)
  have h3: "heap_inv s3 [(b + 8, 8, True)] []"
    using ar by (simp add: heap_inv_def index_def s3_def no_adjacent_free_def)
  have mx3: "mem_max_addr s3 \<le> 2 ^ 32" "mem_max_addr s3 = mem_max_addr s"
    using mx by (simp_all add: s3_def)
  have E: "(8 :: nat) dvd 4096" "(16 :: nat) \<le> 4096" "(4096 :: nat) < 2 ^ 31"
    by simp_all
  show ?thesis
  proof (cases "mem_brk s3 + 4096 \<le> mem_max_addr s3")
    case True
    from extend_heap_state [OF h3 E True mx3(1)] obtain s' p bs' fl' where
      x: "extend_heap s3 1024 = Some (s', p)" and h': "heap_inv s' bs' fl'"
      and p: "0 < p" and fd: "mem_max_addr s' = mem_max_addr s3"
      by auto
    from x p have "mm_init s = Some (s', 0)" by (simp add: e)
    with h' fd mx3(2) show ?thesis by auto
  next
    case False
    then have "mem_max_addr s3 < mem_brk s3 + 4096" by simp
    from extend_heap_exhausted [OF E(1,3) this]
    have "extend_heap s3 1024 = Some (s3, NULL)" by simp
    then have "mm_init s = Some (s3, - 1)" by (simp add: e)
    with mx3(2) show ?thesis by simp
  qed
qed


section \<open>The free-list index under insertion and removal\<close>


text \<open>Linked blocks whose addresses fit in a link field are visited by following the links.\<close>

lemma first_or_less:
  "\<forall>x \<in> set xs. 0 < x \<and> x < (2 :: nat) ^ 32 \<Longrightarrow> first_or 0 xs < 2 ^ 32"
  by (cases xs) simp_all

lemma last_or_less:
  "\<forall>x \<in> set xs. 0 < x \<and> x < (2 :: nat) ^ 32 \<Longrightarrow> last_or 0 xs < 2 ^ 32"
  by (simp add: last_or_def)

lemma links_walk_prev:
  assumes "links m nx xs NULL" and "\<forall>x \<in> set xs. 0 < x \<and> x < 2 ^ 32"
  shows "walk (prev_link m) (first_or NULL xs) xs"
  using assms
proof (induction xs arbitrary: nx)
  case Nil
  show ?case by simp
next
  case (Cons y ys)
  from Cons.prems(1) have py: "m y = of_nat (first_or 0 ys)" and tl: "links m y ys 0"
    by simp_all
  from Cons.prems(2) have ys: "\<forall>x \<in> set ys. 0 < x \<and> x < 2 ^ 32" and y: "0 < y"
    by simp_all
  have "prev_link m y = first_or 0 ys"
    using first_or_less [OF ys] by (simp add: prev_link_def GET_PREV_PTR_def py unat_of_nat_32)
  with Cons.IH [OF tl ys] y show ?case by simp
qed

lemma links_walk_next:
  assumes "links m NULL xs pv" and "\<forall>x \<in> set xs. 0 < x \<and> x < 2 ^ 32"
  shows "walk (next_link m) (last_or NULL xs) (rev xs)"
  using assms
proof (induction xs arbitrary: pv rule: rev_induct)
  case Nil
  show ?case by simp
next
  case (snoc y ys)
  from snoc.prems(1) have l: "links m 0 ys y" and ny: "m (y + 4) = of_nat (last_or 0 ys)"
    by (simp_all add: links_append)
  from snoc.prems(2) have ys: "\<forall>x \<in> set ys. 0 < x \<and> x < 2 ^ 32" and y: "0 < y"
    by simp_all
  have "next_link m y = last_or 0 ys"
    using last_or_less [OF ys] by (simp add: next_link_def GET_NEXT_PTR_def ny unat_of_nat_32)
  with snoc.IH [OF l ys] y show ?case by simp
qed

lemma index_walks:
  assumes a: "arena s bs" and i: "index s fl" and f: "set fl \<subseteq> free_of bs"
  shows "walk (prev_link (mem s)) (free_list_tail s) (map fst fl)"
    and "walk (next_link (mem s)) (last_or NULL (map fst fl)) (rev (map fst fl))"
proof -
  from arena_nodes(1) [OF a f] have w: "\<forall>x \<in> set (map fst fl). 0 < x \<and> x < 2 ^ 32"
    by (simp add: wf_nodes_def)
  from i have l: "links (mem s) 0 (map fst fl) 0" and t: "free_list_tail s = first_or 0 (map fst fl)"
    by (simp_all add: index_def)
  from links_walk_prev [OF l w] show "walk (prev_link (mem s)) (free_list_tail s) (map fst fl)"
    by (simp add: t)
  from links_walk_next [OF l w]
  show "walk (next_link (mem s)) (last_or NULL (map fst fl)) (rev (map fst fl))" .
qed





section \<open>The fit search\<close>

lemma size_t_gt_uint: "(b :: size_t) > ucast (w :: uint) \<longleftrightarrow> unat w < unat b"
proof -
  have "unat w < 2 ^ 32" using unsigned_less [of w] by simp
  then have "unat w < 2 ^ 64" by simp
  then have "unat (ucast w :: size_t) = unat w"
    by (simp add: unsigned_ucast_eq take_bit_nat_eq_self)
  then show ?thesis by (simp add: word_less_nat_alt)
qed

lemma find_fitting_blk_loop_find:
  assumes "walk (prev_link m) x ys"
  shows "find_fitting_blk_loop m b x =
     Some (case find (\<lambda>y. unat b \<le> blk_size_at m y) ys of None \<Rightarrow> NULL | Some p \<Rightarrow> p)"
  using assms
proof (induction ys arbitrary: x)
  case Nil
  then show ?case by (subst find_fitting_blk_loop.simps) simp
next
  case (Cons y ys)
  from Cons.prems have x: "x = y" and y: "y \<noteq> 0" and w: "walk (prev_link m) (prev_link m y) ys"
    by simp_all
  show ?case
  proof (cases "unat b \<le> blk_size_at m y")
    case True
    then have "find_fitting_blk_loop m b y = Some y"
      by (subst find_fitting_blk_loop.simps) (simp add: size_t_gt_uint blk_size_at_def)
    with True show ?thesis by (simp add: x)
  next
    case False
    then have "find_fitting_blk_loop m b y = find_fitting_blk_loop m b (prev_link m y)"
      by (subst find_fitting_blk_loop.simps)
        (simp add: size_t_gt_uint blk_size_at_def prev_link_def y)
    with Cons.IH [OF w] False show ?thesis by (simp add: x)
  qed
qed

lemma walk_nonzero: "walk nxt x ys \<Longrightarrow> y \<in> set ys \<Longrightarrow> y \<noteq> NULL"
  by (induction ys arbitrary: x) auto

lemma find_sorted_least:
  assumes f: "find P ys = Some p" and s: "sorted (map g ys)" and y: "y \<in> set ys" and p: "P y"
  shows "g p \<le> g y"
proof -
  from f obtain i where i: "i < length ys" "p = ys ! i" "\<forall>j < i. \<not> P (ys ! j)"
    by (auto simp add: find_Some_iff)
  from y obtain j where j: "j < length ys" "y = ys ! j"
    by (auto simp add: in_set_conv_nth)
  from i(3) j p have "i \<le> j" by (meson not_le)
  from sorted_nth_mono [OF s this] j(1) i(1) show ?thesis
    by (simp add: i(2) j(2))
qed

text \<open>
  Claim C4. Let following the backward links from \<^verbatim>\<open>free_list_tail\<close> visit the blocks
  \<open>ys\<close>, each at an address of at least 4 so that it has a header word, in ascending order
  of their sizes. When some block of \<open>ys\<close> has at least the requested size,
  \<^verbatim>\<open>find_fitting_blk\<close> returns the first block from the tail whose size is at least the
  request, which is a smallest block of \<open>ys\<close> that fits, and leaves the state, hence the
  end of the arena, as it was. In the scenario \<^verbatim>\<open>mm_init\<close>, \<^verbatim>\<open>A = mm_malloc(100)\<close>,
  \<^verbatim>\<open>B = mm_malloc(50)\<close>, \<^verbatim>\<open>mm_free(A)\<close>, the call \<^verbatim>\<open>mm_malloc(90)\<close> returns the address of
  \<open>A\<close> and the end of the arena stays where it was.
\<close>

theorem find_fitting_blk_best_fit:
  "(walk (prev_link (mem s)) (free_list_tail s) ys \<and> (\<forall>y \<in> set ys. 4 \<le> y) \<and>
    sorted (map (blk_size_at (mem s)) ys) \<and>
    (\<exists>y \<in> set ys. unat blk_size \<le> blk_size_at (mem s) y) \<longrightarrow>
      (\<exists>p. find_fitting_blk s blk_size = Some (s, p) \<and> p \<noteq> NULL \<and>
         find (\<lambda>y. unat blk_size \<le> blk_size_at (mem s) y) ys = Some p \<and>
         unat blk_size \<le> blk_size_at (mem s) p \<and>
         (\<forall>y \<in> set ys. unat blk_size \<le> blk_size_at (mem s) y \<longrightarrow>
            blk_size_at (mem s) p \<le> blk_size_at (mem s) y))) \<and>
   mm_init arena0 = Some (st_init, 0) \<and> mm_malloc st_init 100 = Some (sc_a, 65552) \<and>
   mm_malloc sc_a 50 = Some (sc_ab, 65664) \<and> mm_free sc_ab 65552 = Some sc_b \<and>
   mm_malloc sc_b 90 = Some (sc_cb, 65552) \<and> mem_brk sc_cb = mem_brk sc_b"
proof (intro conjI impI)
  let ?P = "\<lambda>y. unat blk_size \<le> blk_size_at (mem s) y"
  assume h: "walk (prev_link (mem s)) (free_list_tail s) ys \<and> (\<forall>y \<in> set ys. 4 \<le> y) \<and>
    sorted (map (blk_size_at (mem s)) ys) \<and>
    (\<exists>y \<in> set ys. unat blk_size \<le> blk_size_at (mem s) y)"
  then have w: "walk (prev_link (mem s)) (free_list_tail s) ys"
    and so: "sorted (map (blk_size_at (mem s)) ys)" and ex: "\<exists>y \<in> set ys. ?P y"
    by blast+
  from ex obtain p where fi: "find ?P ys = Some p"
    by (cases "find ?P ys") (auto simp add: find_None_iff)
  then have pin: "p \<in> set ys" and pp: "?P p"
    by (auto simp add: find_Some_iff)
  from walk_nonzero [OF w pin] have p0: "p \<noteq> NULL" .
  from find_fitting_blk_loop_find [OF w, of blk_size]
  have "find_fitting_blk_loop (mem s) blk_size (free_list_tail s) = Some p"
    by (simp add: fi)
  then have r: "find_fitting_blk s blk_size = Some (s, p)"
    using p0 by (simp add: find_fitting_blk_def)
  have mn: "\<forall>y \<in> set ys. ?P y \<longrightarrow> blk_size_at (mem s) p \<le> blk_size_at (mem s) y"
    using find_sorted_least [OF fi so] by blast
  from r p0 fi pp mn
  show "\<exists>p. find_fitting_blk s blk_size = Some (s, p) \<and> p \<noteq> NULL \<and>
         find ?P ys = Some p \<and> unat blk_size \<le> blk_size_at (mem s) p \<and>
         (\<forall>y \<in> set ys. unat blk_size \<le> blk_size_at (mem s) y \<longrightarrow>
            blk_size_at (mem s) p \<le> blk_size_at (mem s) y)"
    by blast
qed (simp_all add: init_arena0 malloc_sc_init malloc_sc_a free_sc_ab malloc_sc_b,
    simp add: sc_cb_def sc_b_def)

theorem find_fitting_blk_best_fit_witness:
  "find_fitting_blk sc_b 104 = Some (sc_b, 65552) \<and>
   blk_size_at (mem sc_b) 65552 = 112 \<and> blk_size_at (mem sc_b) 65728 = 3920"
  using find_fitting_blk_best_fit [of sc_b "[65552, 65728]" 104]
  by (simp add: sc_b_def prev_link_def blk_size_at_def GET_PREV_PTR_def GET_SIZE_def GET_W_def
      HDRP_def)


section \<open>The heap between calls\<close>

lemma heap_inv_observation:
  assumes h: "heap_inv s bs fl"
  shows "observation s bs (map fst fl)"
proof -
  from h have a: "arena s bs" and i: "index s fl" and f: "set fl = free_of bs"
    and naf: "no_adjacent_free bs"
    by (simp_all add: heap_inv_def)
  from f have sub: "set fl \<subseteq> free_of bs" by simp
  have tags: "\<forall>(p, n, al) \<in> set bs. GET_W (mem s) (HDRP p) = GET_W (mem s) (FTRP (mem s) p)"
  proof (clarify)
    fix p n al assume x: "(p, n, al) \<in> set bs"
    from arena_blk(7,8) [OF a x] arena_reads(5) [OF a x]
    show "GET_W (mem s) (HDRP p) = GET_W (mem s) (FTRP (mem s) p)"
      by (simp add: GET_W_def HDRP_def)
  qed
  have st: "set (map fst fl) = {p \<in> fst ` set bs. GET_ISALLOCATED (mem s) (HDRP p) = 0}"
  proof (intro set_eqI iffI)
    fix p assume "p \<in> set (map fst fl)"
    then obtain n where "(p, n) \<in> set fl" by auto
    with f have x: "(p, n, False) \<in> set bs" by (simp add: free_of_def)
    from arena_reads(4) [OF a x] have "GET_ISALLOCATED (mem s) (HDRP p) = 0" by simp
    moreover from x have "p \<in> fst ` set bs" by force
    ultimately show "p \<in> {p \<in> fst ` set bs. GET_ISALLOCATED (mem s) (HDRP p) = 0}" by simp
  next
    fix p assume "p \<in> {p \<in> fst ` set bs. GET_ISALLOCATED (mem s) (HDRP p) = 0}"
    then obtain n al where x: "(p, n, al) \<in> set bs" and z: "GET_ISALLOCATED (mem s) (HDRP p) = 0"
      by auto
    from arena_reads(4) [OF a x] z have "\<not> al" by (cases al) simp_all
    with x f have "(p, n) \<in> set fl" by (simp add: free_of_def)
    then show "p \<in> set (map fst fl)" by force
  qed
  from a tags naf index_walks(1) [OF a i sub] st show ?thesis
    by (simp add: observation_def)
qed

lemma step_init:
  assumes mx: "mem_max_addr s \<le> 2 ^ 32"
  shows "\<exists>s' held'. step s held Init = Some (s', held') \<and> mem_max_addr s' \<le> 2 ^ 32 \<and>
     (\<forall>live'. held' = Some live' \<longrightarrow>
        (\<exists>bs fl. heap_inv s' bs fl \<and> set live' \<subseteq> fst ` alloc_of bs \<and>
           heap_listp s' \<notin> set live' \<and> distinct live'))"
proof -
  from mm_init_state [OF mx] obtain s' r where
    e: "mm_init s = Some (s', r)" and m: "mem_max_addr s' = mem_max_addr s"
    and h: "r = 0 \<longrightarrow> (\<exists>bs fl. heap_inv s' bs fl)"
    by blast
  show ?thesis
  proof (cases "r = 0")
    case True
    with h obtain bs fl where "heap_inv s' bs fl" by blast
    then have "\<exists>bs fl. heap_inv s' bs fl \<and> set [] \<subseteq> fst ` alloc_of bs \<and>
        heap_listp s' \<notin> set [] \<and> distinct ([] :: addr list)"
      by auto
    with e m mx True show ?thesis by simp
  next
    case False
    with e m mx show ?thesis by simp
  qed
qed

lemma step_acquire:
  assumes mx: "mem_max_addr s \<le> 2 ^ 32" and h: "heap_inv s bs fl"
    and l: "set live \<subseteq> fst ` alloc_of bs" "heap_listp s \<notin> set live" "distinct live"
    and sz: "unat sz \<le> 2 ^ 31 - 16"
  shows "\<exists>s' live'. step s (Some live) (Acquire sz) = Some (s', Some live') \<and>
     mem_max_addr s' \<le> 2 ^ 32 \<and>
     (\<exists>bs fl. heap_inv s' bs fl \<and> set live' \<subseteq> fst ` alloc_of bs \<and>
        heap_listp s' \<notin> set live' \<and> distinct live')"
proof -
  from mm_malloc_state [OF h mx sz] obtain s' p bs' fl' where
    e: "mm_malloc s sz = Some (s', p)" and h': "heap_inv s' bs' fl'"
    and fd: "mem_max_addr s' = mem_max_addr s" "heap_listp s' = heap_listp s"
    and r: "p = NULL \<and> alloc_of bs' = alloc_of bs \<or>
      p \<noteq> NULL \<and> p \<notin> fst ` alloc_of bs \<and> p \<noteq> heap_listp s \<and>
        (\<exists>n'. alloc_of bs' = insert (p, n') (alloc_of bs) \<and> unat sz + 8 \<le> n')"
    by blast
  show ?thesis
  proof (cases "p = NULL")
    case True
    with r have ao: "alloc_of bs' = alloc_of bs" by simp
    have st: "step s (Some live) (Acquire sz) = Some (s', Some live)"
      using e True by simp
    have "set live \<subseteq> fst ` alloc_of bs'" "heap_listp s' \<notin> set live"
      using l by (simp_all add: ao fd)
    with h' l(3) have "\<exists>bs fl. heap_inv s' bs fl \<and> set live \<subseteq> fst ` alloc_of bs \<and>
        heap_listp s' \<notin> set live \<and> distinct live"
      by blast
    moreover have "mem_max_addr s' \<le> 2 ^ 32" using fd mx by simp
    ultimately show ?thesis using st by blast
  next
    case False
    with r obtain n' where np: "p \<notin> fst ` alloc_of bs" and hp: "p \<noteq> heap_listp s"
      and ao: "alloc_of bs' = insert (p, n') (alloc_of bs)"
      by blast
    have st: "step s (Some live) (Acquire sz) = Some (s', Some (p # live))"
      using e False by simp
    have "set (p # live) \<subseteq> fst ` alloc_of bs'"
      using l(1) by (auto simp add: ao)
    moreover have "heap_listp s' \<notin> set (p # live)"
      using l(2) hp by (simp add: fd)
    moreover have "distinct (p # live)"
      using l(1,3) np by auto
    ultimately have "\<exists>bs fl. heap_inv s' bs fl \<and> set (p # live) \<subseteq> fst ` alloc_of bs \<and>
        heap_listp s' \<notin> set (p # live) \<and> distinct (p # live)"
      using h' by blast
    moreover have "mem_max_addr s' \<le> 2 ^ 32" using fd mx by simp
    ultimately show ?thesis using st by blast
  qed
qed

lemma step_release:
  assumes mx: "mem_max_addr s \<le> 2 ^ 32" and h: "heap_inv s bs fl"
    and l: "set live \<subseteq> fst ` alloc_of bs" "heap_listp s \<notin> set live" "distinct live"
    and p: "p \<in> set live"
  shows "\<exists>s' live'. step s (Some live) (Release p) = Some (s', Some live') \<and>
     mem_max_addr s' \<le> 2 ^ 32 \<and>
     (\<exists>bs fl. heap_inv s' bs fl \<and> set live' \<subseteq> fst ` alloc_of bs \<and>
        heap_listp s' \<notin> set live' \<and> distinct live')"
proof -
  from h have a: "arena s bs" by (simp add: heap_inv_def)
  from p l(1) obtain n where "(p, n) \<in> alloc_of bs" by auto
  then have x: "(p, n, True) \<in> set bs" by (simp add: alloc_of_def)
  from p l(2) have hp: "p \<noteq> heap_listp s" by auto
  from mm_free_state [OF h x hp] obtain s' bs' fl' where
    e: "mm_free s p = Some s'" and h': "heap_inv s' bs' fl'"
    and ao: "alloc_of bs' = alloc_of bs - {(p, n)}"
    and fd: "mem_max_addr s' = mem_max_addr s" "heap_listp s' = heap_listp s"
    by blast
  have st: "step s (Some live) (Release p) = Some (s', Some (remove1 p live))"
    using e by simp
  have "set (remove1 p live) \<subseteq> fst ` alloc_of bs'"
  proof
    fix q assume "q \<in> set (remove1 p live)"
    with l(3) have q: "q \<in> set live" "q \<noteq> p" by auto
    with l(1) obtain k where "(q, k) \<in> alloc_of bs" by auto
    with q(2) have "(q, k) \<in> alloc_of bs'" by (simp add: ao)
    then show "q \<in> fst ` alloc_of bs'" by force
  qed
  moreover have "heap_listp s' \<notin> set (remove1 p live)"
    using l(2) by (auto simp add: fd dest: notin_set_remove1)
  moreover have "distinct (remove1 p live)" using l(3) by simp
  ultimately have "\<exists>bs fl. heap_inv s' bs fl \<and> set (remove1 p live) \<subseteq> fst ` alloc_of bs \<and>
      heap_listp s' \<notin> set (remove1 p live) \<and> distinct (remove1 p live)"
    using h' by blast
  moreover have "mem_max_addr s' \<le> 2 ^ 32" using fd mx by simp
  ultimately show ?thesis using st by blast
qed

lemma step_permitted:
  assumes mx: "mem_max_addr s \<le> 2 ^ 32"
    and inv: "\<forall>live. held = Some live \<longrightarrow>
        (\<exists>bs fl. heap_inv s bs fl \<and> set live \<subseteq> fst ` alloc_of bs \<and>
           heap_listp s \<notin> set live \<and> distinct live)"
    and p: "permitted held c"
  shows "\<exists>s' held'. step s held c = Some (s', held') \<and> mem_max_addr s' \<le> 2 ^ 32 \<and>
     (\<forall>live'. held' = Some live' \<longrightarrow>
        (\<exists>bs fl. heap_inv s' bs fl \<and> set live' \<subseteq> fst ` alloc_of bs \<and>
           heap_listp s' \<notin> set live' \<and> distinct live'))"
proof (cases c)
  case Init
  show ?thesis unfolding Init by (rule step_init [OF mx])
next
  case (Acquire sz)
  with p obtain live where hl: "held = Some live" and sz: "unat sz \<le> 2 ^ 31 - 16"
    by (cases held) simp_all
  from inv hl obtain bs fl where h: "heap_inv s bs fl"
    and l: "set live \<subseteq> fst ` alloc_of bs" "heap_listp s \<notin> set live" "distinct live"
    by blast
  from step_acquire [OF mx h l sz] show ?thesis
    unfolding Acquire hl by blast
next
  case (Release q)
  with p obtain live where hl: "held = Some live" and q: "q \<in> set live"
    by (cases held) simp_all
  from inv hl obtain bs fl where h: "heap_inv s bs fl"
    and l: "set live \<subseteq> fst ` alloc_of bs" "heap_listp s \<notin> set live" "distinct live"
    by blast
  from step_release [OF mx h l q] show ?thesis
    unfolding Release hl by blast
qed

lemma run_invariant:
  assumes "mem_max_addr s \<le> 2 ^ 32"
    and "\<forall>live. held = Some live \<longrightarrow>
        (\<exists>bs fl. heap_inv s bs fl \<and> set live \<subseteq> fst ` alloc_of bs \<and>
           heap_listp s \<notin> set live \<and> distinct live)"
  shows "run s held cs \<noteq> Diverged \<and>
     (\<forall>s' live'. run s held cs = Reached s' (Some live') \<longrightarrow> (\<exists>bs fl. heap_inv s' bs fl))"
  using assms
proof (induction cs arbitrary: s held)
  case Nil
  from Nil.prems(2) have "\<forall>live'. held = Some live' \<longrightarrow> (\<exists>bs fl. heap_inv s bs fl)"
    by blast
  then show ?case by simp
next
  case (Cons c cs)
  show ?case
  proof (cases "permitted held c")
    case False
    then show ?thesis by simp
  next
    case True
    from step_permitted [OF Cons.prems True] obtain s1 held1 where
      e: "step s held c = Some (s1, held1)" and mx1: "mem_max_addr s1 \<le> 2 ^ 32"
      and inv1: "\<forall>live'. held1 = Some live' \<longrightarrow>
        (\<exists>bs fl. heap_inv s1 bs fl \<and> set live' \<subseteq> fst ` alloc_of bs \<and>
           heap_listp s1 \<notin> set live' \<and> distinct live')"
      by blast
    from Cons.IH [OF mx1 inv1] True e show ?thesis by simp
  qed
qed

text \<open>
  Claim C3, for an arena below the address \<open>2 ^ 32\<close> and for permitted calls. Every
  sequence of permitted calls returns, and in every state that it reaches after a
  successful \<^verbatim>\<open>mm_init\<close> the arena is a sequence of blocks \<open>bs\<close> such that the header word
  of every block equals its footer word, no two blocks that follow each other are both
  free, and following the links of the free list from the tail visits exactly the blocks
  whose header marks them free.
\<close>

theorem invariants_between_calls:
  assumes "mem_max_addr s \<le> 2 ^ 32"
  shows "run s None cs \<noteq> Diverged \<and>
     (\<forall>s' live. run s None cs = Reached s' (Some live) \<longrightarrow> (\<exists>bs ys. observation s' bs ys))"
proof -
  from run_invariant [of s None cs] assms
  have d: "run s None cs \<noteq> Diverged"
    and r: "\<forall>s' live'. run s None cs = Reached s' (Some live') \<longrightarrow> (\<exists>bs fl. heap_inv s' bs fl)"
    by simp_all
  from r heap_inv_observation
  have "\<forall>s' live. run s None cs = Reached s' (Some live) \<longrightarrow> (\<exists>bs ys. observation s' bs ys)"
    by blast
  with d show ?thesis by simp
qed

lemma arena0_below_4G: "mem_max_addr arena0 \<le> 2 ^ 32"
  by (simp add: arena0_def)

theorem invariants_between_calls_witness:
  "run arena0 None [Init, Acquire 8, Release 65552] = Reached st_a_freed (Some []) \<and>
   (\<exists>bs ys. observation st_a_freed bs ys)"
  using invariants_between_calls [OF arena0_below_4G, of "[Init, Acquire 8, Release 65552]"]
  by (simp add: init_arena0 malloc_st_init free_st_a)

text \<open>
  Claim C3 as stated, for every sequence of calls, fails in an arena above the address
  \<open>2 ^ 32\<close>. There, after \<^verbatim>\<open>mm_init\<close>, \<^verbatim>\<open>A = mm_malloc(8)\<close>, \<^verbatim>\<open>mm_malloc(8)\<close> and
  \<^verbatim>\<open>mm_free(A)\<close>, the headers of \<open>A = 4295032848\<close> and of the block \<open>4295032880\<close> mark them
  free, and following the backward links from the tail visits \<open>A\<close> and then the address
  65584, which lies below the arena: the walk does not visit the free block \<open>4295032880\<close>.
\<close>

theorem free_list_above_4G_misses_free_block:
  "run hi0 None [Init, Acquire 8, Acquire 8, Release 4295032848] = Reached hi_b (Some [4295032864]) \<and>
   GET_ISALLOCATED (mem hi_b) (HDRP 4295032848) = 0 \<and>
   GET_ISALLOCATED (mem hi_b) (HDRP 4295032880) = 0 \<and>
   walk (prev_link (mem hi_b)) (free_list_tail hi_b) [4295032848, 65584] \<and>
   65584 < heap_listp hi_b \<and> 4295032880 \<notin> set [4295032848, 65584 :: addr]"
  by (simp add: init_hi0 malloc_hi_init malloc_hi_a free_hi_ab)
    (simp add: hi_b_def prev_link_def GET_PREV_PTR_def GET_ISALLOCATED_def GET_W_def HDRP_def)



end
